theory Spec2Isabelle
  imports Main "HOL-Library.Word"
begin

section \<open>Machine types, faults and the node store\<close>

text \<open>
  \<open>size_t\<close> and \<open>uint64_t\<close> are 64-bit unsigned words; \<open>SIZE_MAX\<close> is the word \<open>- 1\<close>.
  A pointer to a link node is an optional address, \<open>None\<close> being \<open>NULL\<close>.  Every chain
  obtains its link nodes from \<open>malloc\<close> and never shares them with another chain, so the
  nodes of a chain are kept in a store of its own: a partial map from addresses to nodes
  together with the next unused address.  \<open>free\<close> removes the address from the map, so
  that a later access through a stale pointer is visible as a fault.

  An entry is a value of type \<open>'a\<close>: in the shallow containers it stands for the
  (non-null) pointer to caller-owned data, in the deep containers for the bytes of a record.
  The model covers the plain (non-reentrant) operations of containers constructed with a
  plain comparator and a plain hash function.

  A function that contains a loop returns an \<open>option\<close>: \<open>None\<close> means that the call does
  not return, \<open>Some (Inl f)\<close> that it runs into undefined behaviour \<open>f\<close>, and
  \<open>Some (Inr r)\<close> that it returns \<open>r\<close>.
\<close>

type_synonym size_t = "64 word"
type_synonym addr = nat

datatype fault = NullDeref | DanglingDeref | OutOfBounds

record 'a queues_node_t =
  node_x :: 'a
  node_prev :: "addr option"
  node_next :: "addr option"

type_synonym 'a store = "addr \<rightharpoonup> 'a queues_node_t"

definition node_at :: "'a store \<Rightarrow> addr option \<Rightarrow> fault + 'a queues_node_t" where
  "node_at h p = (case p of None \<Rightarrow> Inl NullDeref
     | Some a \<Rightarrow> (case h a of None \<Rightarrow> Inl DanglingDeref | Some n \<Rightarrow> Inr n))"

definition store_next :: "'a store \<Rightarrow> addr option \<Rightarrow> addr option \<Rightarrow> fault + 'a store" where
  "store_next h p v = (case p of None \<Rightarrow> Inl NullDeref
     | Some a \<Rightarrow> (case h a of None \<Rightarrow> Inl DanglingDeref
         | Some n \<Rightarrow> Inr (h(a \<mapsto> n\<lparr>node_next := v\<rparr>))))"

definition store_prev :: "'a store \<Rightarrow> addr option \<Rightarrow> addr option \<Rightarrow> fault + 'a store" where
  "store_prev h p v = (case p of None \<Rightarrow> Inl NullDeref
     | Some a \<Rightarrow> (case h a of None \<Rightarrow> Inl DanglingDeref
         | Some n \<Rightarrow> Inr (h(a \<mapsto> n\<lparr>node_prev := v\<rparr>))))"

definition free_node :: "'a store \<Rightarrow> addr option \<Rightarrow> 'a store" where
  "free_node h p = (case p of None \<Rightarrow> h | Some a \<Rightarrow> h(a := None))"


section \<open>The shallow chain (queues.c)\<close>

record 'a queues_t =
  q_size :: size_t
  q_cmp :: "'a \<Rightarrow> 'a \<Rightarrow> int"
  q_head :: "addr option"
  q_tail :: "addr option"
  q_nodes :: "'a store"
  q_brk :: addr

definition queues_new :: "('a \<Rightarrow> 'a \<Rightarrow> int) \<Rightarrow> 'a queues_t" where
  "queues_new cmp = \<lparr>q_size = 0, q_cmp = cmp, q_head = None, q_tail = None,
                     q_nodes = Map.empty, q_brk = 0\<rparr>"

text \<open>
  The body scan of \<open>queues_enqueu\<close>.  The \<open>switch\<close> has cases for \<open>-1\<close>, \<open>0\<close> and \<open>1\<close>
  only: on any other comparator result the loop repeats with the same \<open>tmp\<close>.
\<close>

partial_function (option) enqueu_body ::
  "'a queues_t \<Rightarrow> 'a \<Rightarrow> addr option \<Rightarrow> (fault + 'a queues_t) option" where
  "enqueu_body q v tmp =
     (case node_at (q_nodes q) tmp of Inl e \<Rightarrow> Some (Inl e) | Inr tn \<Rightarrow>
       (case node_next tn of None \<Rightarrow> Some (Inr q) | Some nx \<Rightarrow>
         (case node_at (q_nodes q) (Some nx) of Inl e \<Rightarrow> Some (Inl e) | Inr nn \<Rightarrow>
            (let c = q_cmp q v (node_x nn) in
             if c = - 1 then
               (case store_prev ((q_nodes q)(q_brk q \<mapsto>
                        \<lparr>node_x = v, node_prev = tmp, node_next = Some nx\<rparr>))
                        (Some nx) (Some (q_brk q)) of
                  Inl e \<Rightarrow> Some (Inl e)
                | Inr h1 \<Rightarrow>
                   (case store_next h1 tmp (Some (q_brk q)) of
                      Inl e \<Rightarrow> Some (Inl e)
                    | Inr h2 \<Rightarrow> Some (Inr (q\<lparr>q_nodes := h2, q_brk := Suc (q_brk q),
                                              q_size := q_size q + 1\<rparr>))))
             else if c = 0 then Some (Inr q)
             else if c = 1 then enqueu_body q v (Some nx)
             else enqueu_body q v tmp))))"

definition queues_enqueu :: "'a queues_t \<Rightarrow> 'a \<Rightarrow> (fault + 'a queues_t) option" where
  "queues_enqueu q v =
     (if q_head q = None then
        Some (Inr (q\<lparr>q_nodes := (q_nodes q)(q_brk q \<mapsto>
                         \<lparr>node_x = v, node_prev = None, node_next = None\<rparr>),
                     q_brk := Suc (q_brk q), q_head := Some (q_brk q),
                     q_tail := Some (q_brk q), q_size := 1\<rparr>))
      else
        (case node_at (q_nodes q) (q_tail q) of Inl e \<Rightarrow> Some (Inl e) | Inr tn \<Rightarrow>
          (let c = q_cmp q v (node_x tn) in
           if c = 0 then Some (Inr q)
           else if c = 1 then
             (case store_next ((q_nodes q)(q_brk q \<mapsto>
                      \<lparr>node_x = v, node_prev = q_tail q, node_next = None\<rparr>))
                      (q_tail q) (Some (q_brk q)) of
                Inl e \<Rightarrow> Some (Inl e)
              | Inr h1 \<Rightarrow> Some (Inr (q\<lparr>q_nodes := h1, q_brk := Suc (q_brk q),
                                        q_tail := Some (q_brk q), q_size := q_size q + 1\<rparr>)))
           else
             (case node_at (q_nodes q) (q_head q) of Inl e \<Rightarrow> Some (Inl e) | Inr hn \<Rightarrow>
               (let d = q_cmp q v (node_x hn) in
                if d = - 1 then
                  (case store_prev ((q_nodes q)(q_brk q \<mapsto>
                           \<lparr>node_x = v, node_prev = None, node_next = q_head q\<rparr>))
                           (q_head q) (Some (q_brk q)) of
                     Inl e \<Rightarrow> Some (Inl e)
                   | Inr h1 \<Rightarrow> Some (Inr (q\<lparr>q_nodes := h1, q_brk := Suc (q_brk q),
                                             q_head := Some (q_brk q),
                                             q_size := q_size q + 1\<rparr>)))
                else if d = 0 then Some (Inr q)
                else enqueu_body q v (q_head q))))))"

definition queues_dequeue_front :: "'a queues_t \<Rightarrow> fault + 'a option \<times> 'a queues_t" where
  "queues_dequeue_front q =
     (if q_head q = None then Inr (None, q)
      else
        (case node_at (q_nodes q) (q_head q) of Inl e \<Rightarrow> Inl e | Inr hn \<Rightarrow>
          (let q1 = (if node_next hn = None then q\<lparr>q_tail := None\<rparr> else q);
               h1 = free_node (q_nodes q) (q_head q)
           in if node_next hn \<noteq> None then
                (case store_prev h1 (node_next hn) None of Inl e \<Rightarrow> Inl e
                 | Inr h2 \<Rightarrow> Inr (Some (node_x hn),
                     q1\<lparr>q_head := node_next hn, q_nodes := h2, q_size := q_size q - 1\<rparr>))
              else Inr (Some (node_x hn),
                     q1\<lparr>q_head := node_next hn, q_nodes := h1, q_size := q_size q - 1\<rparr>))))"

definition queues_dequeue_back :: "'a queues_t \<Rightarrow> fault + 'a option \<times> 'a queues_t" where
  "queues_dequeue_back q =
     (if q_tail q = None then Inr (None, q)
      else
        (case node_at (q_nodes q) (q_tail q) of Inl e \<Rightarrow> Inl e | Inr tn \<Rightarrow>
          (let q1 = (if node_prev tn = None then q\<lparr>q_head := None\<rparr> else q);
               h1 = free_node (q_nodes q) (q_tail q)
           in if node_prev tn \<noteq> None then
                (case store_next h1 (node_prev tn) None of Inl e \<Rightarrow> Inl e
                 | Inr h2 \<Rightarrow> Inr (Some (node_x tn),
                     q1\<lparr>q_tail := node_prev tn, q_nodes := h2, q_size := q_size q - 1\<rparr>))
              else Inr (Some (node_x tn),
                     q1\<lparr>q_tail := node_prev tn, q_nodes := h1, q_size := q_size q - 1\<rparr>))))"

text \<open>
  \<open>queues_find\<close>: the \<open>switch\<close> returns on \<open>-1\<close> and on \<open>0\<close>; every other result moves on
  to the next node.
\<close>

partial_function (option) find_loop ::
  "'a store \<Rightarrow> ('a \<Rightarrow> 'a \<Rightarrow> int) \<Rightarrow> 'a \<Rightarrow> addr option \<Rightarrow> (fault + 'a option) option" where
  "find_loop h cmp v tmp =
     (case tmp of None \<Rightarrow> Some (Inr None)
      | Some a \<Rightarrow>
         (case h a of None \<Rightarrow> Some (Inl DanglingDeref)
          | Some n \<Rightarrow>
             if cmp v (node_x n) = - 1 then Some (Inr None)
             else if cmp v (node_x n) = 0 then Some (Inr (Some (node_x n)))
             else find_loop h cmp v (node_next n)))"

definition queues_find :: "'a queues_t option \<Rightarrow> 'a \<Rightarrow> (fault + 'a option) option" where
  "queues_find qo v =
     (case qo of None \<Rightarrow> Some (Inr None)
      | Some q \<Rightarrow> find_loop (q_nodes q) (q_cmp q) v (q_head q))"

text \<open>
  The body scan of \<open>queues_remove\<close>, from \<open>q->head->next\<close> up to (excluding) \<open>q->tail\<close>.
\<close>

partial_function (option) remove_body ::
  "'a queues_t \<Rightarrow> 'a \<Rightarrow> addr option \<Rightarrow> (fault + 'a option \<times> 'a queues_t) option" where
  "remove_body q v tmp =
     (if tmp = q_tail q then Some (Inr (None, q))
      else
        (case node_at (q_nodes q) tmp of Inl e \<Rightarrow> Some (Inl e) | Inr n \<Rightarrow>
          (let c = q_cmp q v (node_x n) in
           if c = - 1 then Some (Inr (None, q))
           else if c = 0 then
             (case store_next (q_nodes q) (node_prev n) (node_next n) of
                Inl e \<Rightarrow> Some (Inl e)
              | Inr h1 \<Rightarrow>
                 (case store_prev h1 (node_next n) (node_prev n) of
                    Inl e \<Rightarrow> Some (Inl e)
                  | Inr h2 \<Rightarrow> Some (Inr (Some (node_x n),
                       q\<lparr>q_nodes := free_node h2 tmp, q_size := q_size q - 1\<rparr>))))
           else if c = 1 then remove_body q v (node_next n)
           else remove_body q v tmp)))"

definition queues_remove ::
  "'a queues_t option \<Rightarrow> 'a \<Rightarrow> (fault + 'a option \<times> 'a queues_t option) option" where
  "queues_remove qo v =
     (case qo of None \<Rightarrow> Some (Inr (None, None))
      | Some q \<Rightarrow>
         if q_head q = None then Some (Inr (None, Some q))
         else
           (case node_at (q_nodes q) (q_head q) of Inl e \<Rightarrow> Some (Inl e) | Inr hn \<Rightarrow>
             (let c = q_cmp q v (node_x hn) in
              if c = - 1 then Some (Inr (None, Some q))
              else if c = 0 then
                (case (if node_next hn \<noteq> None then store_prev (q_nodes q) (node_next hn) None
                       else Inr (q_nodes q)) of
                   Inl e \<Rightarrow> Some (Inl e)
                 | Inr h1 \<Rightarrow> Some (Inr (Some (node_x hn),
                      Some (q\<lparr>q_head := node_next hn, q_nodes := free_node h1 (q_head q),
                               q_size := q_size q - 1\<rparr>))))
              else
                (case node_at (q_nodes q) (q_tail q) of Inl e \<Rightarrow> Some (Inl e) | Inr tn \<Rightarrow>
                  (let d = q_cmp q v (node_x tn) in
                   if d = 0 then
                     (case (if node_prev tn \<noteq> None
                            then store_next (q_nodes q) (node_prev tn) None
                            else Inr (q_nodes q)) of
                        Inl e \<Rightarrow> Some (Inl e)
                      | Inr h1 \<Rightarrow> Some (Inr (Some (node_x tn),
                           Some (q\<lparr>q_tail := node_prev tn,
                                    q_nodes := free_node h1 (q_tail q),
                                    q_size := q_size q - 1\<rparr>))))
                   else if d = 1 then Some (Inr (None, Some q))
                   else
                     (case remove_body q v (node_next hn) of None \<Rightarrow> None
                      | Some (Inl e) \<Rightarrow> Some (Inl e)
                      | Some (Inr (r, q')) \<Rightarrow> Some (Inr (r, Some q'))))))))"

text \<open>
  \<open>queues_map_r\<close>: the callback receives the address of the node's \<open>x\<close> field and the
  context \<open>y\<close>; it returns its \<open>int\<close> result together with the (possibly overwritten)
  field and the (possibly updated) context, or faults, or does not return.
\<close>

partial_function (option) map_r_loop ::
  "'a store \<Rightarrow> ('a \<Rightarrow> 's \<Rightarrow> (fault + int \<times> 'a \<times> 's) option) \<Rightarrow> 's \<Rightarrow> addr option
     \<Rightarrow> (fault + int \<times> 'a store \<times> 's) option" where
  "map_r_loop h app y tmp =
     (case tmp of None \<Rightarrow> Some (Inr (1, h, y))
      | Some a \<Rightarrow>
         (case h a of None \<Rightarrow> Some (Inl DanglingDeref)
          | Some n \<Rightarrow>
             (case app (node_x n) y of None \<Rightarrow> None
              | Some (Inl e) \<Rightarrow> Some (Inl e)
              | Some (Inr (r, v', y')) \<Rightarrow>
                 if r < 0 then Some (Inr (- 1, h(a \<mapsto> n\<lparr>node_x := v'\<rparr>), y'))
                 else map_r_loop (h(a \<mapsto> n\<lparr>node_x := v'\<rparr>)) app y' (node_next n))))"

definition queues_map_r ::
  "'a queues_t option \<Rightarrow> ('a \<Rightarrow> 's \<Rightarrow> (fault + int \<times> 'a \<times> 's) option) \<Rightarrow> 's
     \<Rightarrow> (fault + int \<times> 'a queues_t option \<times> 's) option" where
  "queues_map_r qo app y =
     (case qo of None \<Rightarrow> Some (Inr (1, None, y))
      | Some q \<Rightarrow>
         (case map_r_loop (q_nodes q) app y (q_head q) of None \<Rightarrow> None
          | Some (Inl e) \<Rightarrow> Some (Inl e)
          | Some (Inr (r, h', y')) \<Rightarrow> Some (Inr (r, Some (q\<lparr>q_nodes := h'\<rparr>), y'))))"

definition queues_size :: "'a queues_t \<Rightarrow> size_t" where
  "queues_size q = q_size q"

text \<open>
  Traversal from head to tail, by the chain's own iterator with a callback that records
  every element it is shown.
\<close>

definition collect :: "'a \<Rightarrow> 'a list \<Rightarrow> (fault + int \<times> 'a \<times> 'a list) option" where
  "collect v acc = Some (Inr (1, v, acc @ [v]))"

definition queues_traverse :: "'a queues_t \<Rightarrow> (fault + 'a list) option" where
  "queues_traverse q =
     (case queues_map_r (Some q) collect [] of None \<Rightarrow> None
      | Some (Inl e) \<Rightarrow> Some (Inl e)
      | Some (Inr (r, q', acc)) \<Rightarrow> Some (Inr acc))"


section \<open>The shallow directory (hashtabs.c)\<close>

definition NPRIMES :: nat where
  "NPRIMES = 45"

text \<open>The table \<open>_primes\<close>: forty-five primes followed by \<open>SIZE_MAX\<close>.\<close>

definition primes :: "size_t list" where
  "primes = [11, 17, 29, 43, 67, 101, 151, 227, 347, 521, 787, 1181, 1777, 2671, 4007,
     6011, 9029, 13553, 20333, 30509, 45763, 68659, 103001, 154501, 231779, 347671,
     521519, 782297, 1173463, 1760203, 2640317, 3960497, 5940761, 8911141, 13366711,
     20050081, 30075127, 45112693, 67669079, 101503627, 152255461, 228383273,
     342574909, 513862367, 770793589, - 1]"

definition primes_at :: "nat \<Rightarrow> fault + size_t" where
  "primes_at i = (if i < length primes then Inr (primes ! i) else Inl OutOfBounds)"

function get_cap_index_loop :: "size_t \<Rightarrow> nat \<Rightarrow> nat" where
  "get_cap_index_loop n i =
     (if i < NPRIMES \<and> primes ! i \<le> n then get_cap_index_loop n (Suc i) else i)"
  by pat_completeness auto
termination
  by (relation "measure (\<lambda>(n, i). NPRIMES - i)") auto

definition get_cap_index :: "size_t \<Rightarrow> nat" where
  "get_cap_index n = get_cap_index_loop n 0"

record 'a hashtabs_t =
  t_size :: size_t
  t_load :: size_t
  t_cap_index :: nat
  t_cmp :: "'a \<Rightarrow> 'a \<Rightarrow> int"
  t_hash :: "'a \<Rightarrow> 64 word"
  t_A :: "'a queues_t option list option"

text \<open>
  \<open>calloc (nmemb, sizeof (queues_t))\<close> with eight-byte pointers: a request whose byte
  count does not fit \<open>size_t\<close> yields \<open>NULL\<close>; every other request is taken to succeed and
  yields an array of \<open>nmemb\<close> null chain handles.
\<close>

definition calloc_chains :: "size_t \<Rightarrow> 'q option list option" where
  "calloc_chains nmemb =
     (if unat nmemb * 8 < 2 ^ 64 then Some (replicate (unat nmemb) None) else None)"

definition hashtabs_new ::
  "('a \<Rightarrow> 'a \<Rightarrow> int) \<Rightarrow> ('a \<Rightarrow> 64 word) \<Rightarrow> size_t \<Rightarrow> fault + 'a hashtabs_t" where
  "hashtabs_new cmp hash n =
     (case primes_at (get_cap_index n) of Inl e \<Rightarrow> Inl e
      | Inr cap \<Rightarrow> Inr \<lparr>t_size = 0, t_load = 0, t_cap_index = get_cap_index n,
                         t_cmp = cmp, t_hash = hash, t_A = calloc_chains cap\<rparr>)"

definition hashtabs_insert :: "'a hashtabs_t \<Rightarrow> 'a \<Rightarrow> (fault + 'a hashtabs_t) option" where
  "hashtabs_insert t v =
     (case primes_at (t_cap_index t) of Inl e \<Rightarrow> Some (Inl e) | Inr cap \<Rightarrow>
       (case t_A t of None \<Rightarrow> Some (Inl NullDeref) | Some arr \<Rightarrow>
         (let val = unat (t_hash t v mod cap) in
          if length arr \<le> val then Some (Inl OutOfBounds)
          else
            (let ld = (if arr ! val = None then t_load t + 1 else t_load t);
                 q = (case arr ! val of None \<Rightarrow> queues_new (t_cmp t) | Some q0 \<Rightarrow> q0)
             in case queues_enqueu q v of None \<Rightarrow> None
                | Some (Inl e) \<Rightarrow> Some (Inl e)
                | Some (Inr q') \<Rightarrow>
                    Some (Inr (t\<lparr>t_load := ld, t_A := Some (arr[val := Some q']),
                                 t_size := t_size t + 1\<rparr>))))))"

partial_function (option) hashtabs_remove_loop ::
  "'a hashtabs_t \<Rightarrow> nat \<Rightarrow> 'a \<Rightarrow> nat \<Rightarrow> (fault + 'a option \<times> 'a hashtabs_t) option" where
  "hashtabs_remove_loop t cap v i =
     (if i < cap then
        (case t_A t of None \<Rightarrow> Some (Inl NullDeref) | Some arr \<Rightarrow>
          if length arr \<le> i then Some (Inl OutOfBounds)
          else
            (case queues_remove (arr ! i) v of None \<Rightarrow> None
             | Some (Inl e) \<Rightarrow> Some (Inl e)
             | Some (Inr (None, qo)) \<Rightarrow>
                 hashtabs_remove_loop (t\<lparr>t_A := Some (arr[i := qo])\<rparr>) cap v (Suc i)
             | Some (Inr (Some r, qo)) \<Rightarrow>
                 (case qo of None \<Rightarrow> Some (Inl NullDeref)
                  | Some q' \<Rightarrow>
                      Some (Inr (Some r,
                        t\<lparr>t_A := Some (arr[i := qo]), t_size := t_size t - 1,
                          t_load := (if queues_size q' = 0 then t_load t - 1
                                     else t_load t)\<rparr>)))))
      else Some (Inr (None, t)))"

definition hashtabs_remove ::
  "'a hashtabs_t \<Rightarrow> 'a \<Rightarrow> (fault + 'a option \<times> 'a hashtabs_t) option" where
  "hashtabs_remove t v =
     (case primes_at (t_cap_index t) of Inl e \<Rightarrow> Some (Inl e)
      | Inr cap \<Rightarrow> hashtabs_remove_loop t (unat cap) v 0)"

partial_function (option) hashtabs_find_loop ::
  "'a hashtabs_t \<Rightarrow> nat \<Rightarrow> 'a \<Rightarrow> nat \<Rightarrow> (fault + 'a option) option" where
  "hashtabs_find_loop t cap v i =
     (if i < cap then
        (case t_A t of None \<Rightarrow> Some (Inl NullDeref) | Some arr \<Rightarrow>
          if length arr \<le> i then Some (Inl OutOfBounds)
          else
            (case queues_find (arr ! i) v of None \<Rightarrow> None
             | Some (Inl e) \<Rightarrow> Some (Inl e)
             | Some (Inr None) \<Rightarrow> hashtabs_find_loop t cap v (Suc i)
             | Some (Inr (Some r)) \<Rightarrow> Some (Inr (Some r))))
      else Some (Inr None))"

definition hashtabs_find :: "'a hashtabs_t \<Rightarrow> 'a \<Rightarrow> (fault + 'a option) option" where
  "hashtabs_find t v =
     (case primes_at (t_cap_index t) of Inl e \<Rightarrow> Some (Inl e)
      | Inr cap \<Rightarrow> hashtabs_find_loop t (unat cap) v 0)"

partial_function (option) hashtabs_map_r_loop ::
  "'a hashtabs_t \<Rightarrow> nat \<Rightarrow> ('a \<Rightarrow> 's \<Rightarrow> (fault + int \<times> 'a \<times> 's) option) \<Rightarrow> 's \<Rightarrow> nat
     \<Rightarrow> (fault + int \<times> 'a hashtabs_t \<times> 's) option" where
  "hashtabs_map_r_loop t cap app y i =
     (if i < cap then
        (case t_A t of None \<Rightarrow> Some (Inl NullDeref) | Some arr \<Rightarrow>
          if length arr \<le> i then Some (Inl OutOfBounds)
          else
            (case queues_map_r (arr ! i) app y of None \<Rightarrow> None
             | Some (Inl e) \<Rightarrow> Some (Inl e)
             | Some (Inr (r, qo, y')) \<Rightarrow>
                 if r < 0 then Some (Inr (- 1, t\<lparr>t_A := Some (arr[i := qo])\<rparr>, y'))
                 else hashtabs_map_r_loop (t\<lparr>t_A := Some (arr[i := qo])\<rparr>) cap app y' (Suc i)))
      else Some (Inr (1, t, y)))"

definition hashtabs_map_r ::
  "'a hashtabs_t \<Rightarrow> ('a \<Rightarrow> 's \<Rightarrow> (fault + int \<times> 'a \<times> 's) option) \<Rightarrow> 's
     \<Rightarrow> (fault + int \<times> 'a hashtabs_t \<times> 's) option" where
  "hashtabs_map_r t app y =
     (case primes_at (t_cap_index t) of Inl e \<Rightarrow> Some (Inl e)
      | Inr cap \<Rightarrow> hashtabs_map_r_loop t (unat cap) app y 0)"

definition hashtabs_capacity :: "'a hashtabs_t \<Rightarrow> fault + size_t" where
  "hashtabs_capacity t = primes_at (t_cap_index t)"

text \<open>
  The callback \<open>_rehash\<close>: insert the element shown into the directory under
  construction, leave the element as it is, and return \<open>1\<close>.
\<close>

definition rehash_cb ::
  "'a \<Rightarrow> 'a hashtabs_t \<Rightarrow> (fault + int \<times> 'a \<times> 'a hashtabs_t) option" where
  "rehash_cb v t' =
     (case hashtabs_insert t' v of None \<Rightarrow> None
      | Some (Inl e) \<Rightarrow> Some (Inl e)
      | Some (Inr t'') \<Rightarrow> Some (Inr (1, v, t'')))"

text \<open>
  The loop of \<open>hashtabs_rehash\<close> discards the result of \<open>queues_map_r\<close>.  The old
  directory is threaded through the loop, so that the result shows what the walk left
  of it: the function returns the old directory after the walk and the new directory.
\<close>

partial_function (option) hashtabs_rehash_loop ::
  "'a hashtabs_t \<Rightarrow> nat \<Rightarrow> 'a hashtabs_t \<Rightarrow> nat
     \<Rightarrow> (fault + 'a hashtabs_t \<times> 'a hashtabs_t) option" where
  "hashtabs_rehash_loop t cap t' i =
     (if i < cap then
        (case t_A t of None \<Rightarrow> Some (Inl NullDeref) | Some arr \<Rightarrow>
          if length arr \<le> i then Some (Inl OutOfBounds)
          else
            (case queues_map_r (arr ! i) rehash_cb t' of None \<Rightarrow> None
             | Some (Inl e) \<Rightarrow> Some (Inl e)
             | Some (Inr (r, qo, t'')) \<Rightarrow>
                 hashtabs_rehash_loop (t\<lparr>t_A := Some (arr[i := qo])\<rparr>) cap t'' (Suc i)))
      else Some (Inr (t, t')))"

definition hashtabs_rehash ::
  "'a hashtabs_t \<Rightarrow> (fault + 'a hashtabs_t \<times> 'a hashtabs_t) option" where
  "hashtabs_rehash t =
     (case primes_at (t_cap_index t) of Inl e \<Rightarrow> Some (Inl e)
      | Inr cap \<Rightarrow>
         (case hashtabs_new (t_cmp t) (t_hash t) cap of Inl e \<Rightarrow> Some (Inl e)
          | Inr t0 \<Rightarrow> hashtabs_rehash_loop t (unat cap) t0 0))"

definition hashtabs_size :: "'a hashtabs_t \<Rightarrow> size_t" where
  "hashtabs_size t = t_size t"

definition hashtabs_loadfactor :: "'a hashtabs_t \<Rightarrow> size_t" where
  "hashtabs_loadfactor t = (if t_load t = 0 then 0 else t_size t div t_load t)"


section \<open>The deep chain and the deep directory (deepqueues.c, deephashtabs.c)\<close>

text \<open>
  A deep entry is the sequence of bytes of the object that the caller's pointer refers
  to.  \<open>malloc (q->size)\<close> followed by \<open>memcpy (new->x, x, q->size)\<close> yields an owned
  buffer holding the first \<open>q->size\<close> bytes of that object; reading more bytes than the
  object has is a fault.
\<close>

type_synonym bytes = "8 word list"

definition copy_bytes :: "size_t \<Rightarrow> bytes \<Rightarrow> fault + bytes" where
  "copy_bytes n src = (if unat n \<le> length src then Inr (take (unat n) src) else Inl OutOfBounds)"

record dqueues_t =
  dq_size :: size_t
  dq_nmems :: size_t
  dq_cmp :: "bytes \<Rightarrow> bytes \<Rightarrow> int"
  dq_head :: "addr option"
  dq_tail :: "addr option"
  dq_nodes :: "bytes store"
  dq_brk :: addr

definition dqueues_new :: "(bytes \<Rightarrow> bytes \<Rightarrow> int) \<Rightarrow> size_t \<Rightarrow> dqueues_t" where
  "dqueues_new cmp sz = \<lparr>dq_size = sz, dq_nmems = 0, dq_cmp = cmp, dq_head = None,
                           dq_tail = None, dq_nodes = Map.empty, dq_brk = 0\<rparr>"

partial_function (option) denqueu_body ::
  "dqueues_t \<Rightarrow> bytes \<Rightarrow> addr option \<Rightarrow> (fault + dqueues_t) option" where
  "denqueu_body q v tmp =
     (case node_at (dq_nodes q) tmp of Inl e \<Rightarrow> Some (Inl e) | Inr tn \<Rightarrow>
       (case node_next tn of None \<Rightarrow> Some (Inr q) | Some nx \<Rightarrow>
         (case node_at (dq_nodes q) (Some nx) of Inl e \<Rightarrow> Some (Inl e) | Inr nn \<Rightarrow>
            (let c = dq_cmp q v (node_x nn) in
             if c = - 1 then
               (case copy_bytes (dq_size q) v of Inl e \<Rightarrow> Some (Inl e) | Inr b \<Rightarrow>
                 (case store_prev ((dq_nodes q)(dq_brk q \<mapsto>
                          \<lparr>node_x = b, node_prev = tmp, node_next = Some nx\<rparr>))
                          (Some nx) (Some (dq_brk q)) of
                    Inl e \<Rightarrow> Some (Inl e)
                  | Inr h1 \<Rightarrow>
                     (case store_next h1 tmp (Some (dq_brk q)) of
                        Inl e \<Rightarrow> Some (Inl e)
                      | Inr h2 \<Rightarrow> Some (Inr (q\<lparr>dq_nodes := h2, dq_brk := Suc (dq_brk q),
                                                dq_nmems := dq_nmems q + 1\<rparr>)))))
             else if c = 0 then Some (Inr q)
             else if c = 1 then denqueu_body q v (Some nx)
             else denqueu_body q v tmp))))"

definition dqueues_enqueu :: "dqueues_t \<Rightarrow> bytes \<Rightarrow> (fault + dqueues_t) option" where
  "dqueues_enqueu q v =
     (if dq_head q = None then
        (case copy_bytes (dq_size q) v of Inl e \<Rightarrow> Some (Inl e) | Inr b \<Rightarrow>
          Some (Inr (q\<lparr>dq_nodes := (dq_nodes q)(dq_brk q \<mapsto>
                           \<lparr>node_x = b, node_prev = None, node_next = None\<rparr>),
                       dq_brk := Suc (dq_brk q), dq_head := Some (dq_brk q),
                       dq_tail := Some (dq_brk q), dq_nmems := 1\<rparr>)))
      else
        (case node_at (dq_nodes q) (dq_tail q) of Inl e \<Rightarrow> Some (Inl e) | Inr tn \<Rightarrow>
          (let c = dq_cmp q v (node_x tn) in
           if c = 0 then Some (Inr q)
           else if c = 1 then
             (case copy_bytes (dq_size q) v of Inl e \<Rightarrow> Some (Inl e) | Inr b \<Rightarrow>
               (case store_next ((dq_nodes q)(dq_brk q \<mapsto>
                        \<lparr>node_x = b, node_prev = dq_tail q, node_next = None\<rparr>))
                        (dq_tail q) (Some (dq_brk q)) of
                  Inl e \<Rightarrow> Some (Inl e)
                | Inr h1 \<Rightarrow> Some (Inr (q\<lparr>dq_nodes := h1, dq_brk := Suc (dq_brk q),
                                          dq_tail := Some (dq_brk q),
                                          dq_nmems := dq_nmems q + 1\<rparr>))))
           else
             (case node_at (dq_nodes q) (dq_head q) of Inl e \<Rightarrow> Some (Inl e) | Inr hn \<Rightarrow>
               (let d = dq_cmp q v (node_x hn) in
                if d = - 1 then
                  (case copy_bytes (dq_size q) v of Inl e \<Rightarrow> Some (Inl e) | Inr b \<Rightarrow>
                    (case store_prev ((dq_nodes q)(dq_brk q \<mapsto>
                             \<lparr>node_x = b, node_prev = None, node_next = dq_head q\<rparr>))
                             (dq_head q) (Some (dq_brk q)) of
                       Inl e \<Rightarrow> Some (Inl e)
                     | Inr h1 \<Rightarrow> Some (Inr (q\<lparr>dq_nodes := h1, dq_brk := Suc (dq_brk q),
                                               dq_head := Some (dq_brk q),
                                               dq_nmems := dq_nmems q + 1\<rparr>))))
                else if d = 0 then Some (Inr q)
                else denqueu_body q v (dq_head q))))))"

definition dqueues_find :: "dqueues_t option \<Rightarrow> bytes \<Rightarrow> (fault + bytes option) option" where
  "dqueues_find qo v =
     (case qo of None \<Rightarrow> Some (Inr None)
      | Some q \<Rightarrow> find_loop (dq_nodes q) (dq_cmp q) v (dq_head q))"

record dhashtabs_t =
  dt_nmems :: size_t
  dt_size :: size_t
  dt_load :: size_t
  dt_cap_index :: nat
  dt_cmp :: "bytes \<Rightarrow> bytes \<Rightarrow> int"
  dt_hash :: "bytes \<Rightarrow> 64 word"
  dt_A :: "dqueues_t option list option"

definition dhashtabs_new ::
  "(bytes \<Rightarrow> bytes \<Rightarrow> int) \<Rightarrow> (bytes \<Rightarrow> 64 word) \<Rightarrow> size_t \<Rightarrow> size_t \<Rightarrow> fault + dhashtabs_t" where
  "dhashtabs_new cmp hash n sz =
     (case primes_at (get_cap_index n) of Inl e \<Rightarrow> Inl e
      | Inr cap \<Rightarrow> Inr \<lparr>dt_nmems = 0, dt_size = sz, dt_load = 0,
                         dt_cap_index = get_cap_index n, dt_cmp = cmp, dt_hash = hash,
                         dt_A = calloc_chains cap\<rparr>)"

definition dhashtabs_insert :: "dhashtabs_t \<Rightarrow> bytes \<Rightarrow> (fault + dhashtabs_t) option" where
  "dhashtabs_insert t v =
     (case primes_at (dt_cap_index t) of Inl e \<Rightarrow> Some (Inl e) | Inr cap \<Rightarrow>
       (case dt_A t of None \<Rightarrow> Some (Inl NullDeref) | Some arr \<Rightarrow>
         (let val = unat (dt_hash t v mod cap) in
          if length arr \<le> val then Some (Inl OutOfBounds)
          else
            (let ld = (if arr ! val = None then dt_load t + 1 else dt_load t);
                 q = (case arr ! val of None \<Rightarrow> dqueues_new (dt_cmp t) (dt_size t)
                      | Some q0 \<Rightarrow> q0)
             in case dqueues_enqueu q v of None \<Rightarrow> None
                | Some (Inl e) \<Rightarrow> Some (Inl e)
                | Some (Inr q') \<Rightarrow>
                    Some (Inr (t\<lparr>dt_load := ld, dt_A := Some (arr[val := Some q']),
                                 dt_size := dt_size t + 1\<rparr>))))))"

partial_function (option) dhashtabs_find_loop ::
  "dhashtabs_t \<Rightarrow> nat \<Rightarrow> bytes \<Rightarrow> nat \<Rightarrow> (fault + bytes option) option" where
  "dhashtabs_find_loop t cap v i =
     (if i < cap then
        (case dt_A t of None \<Rightarrow> Some (Inl NullDeref) | Some arr \<Rightarrow>
          if length arr \<le> i then Some (Inl OutOfBounds)
          else
            (case dqueues_find (arr ! i) v of None \<Rightarrow> None
             | Some (Inl e) \<Rightarrow> Some (Inl e)
             | Some (Inr None) \<Rightarrow> dhashtabs_find_loop t cap v (Suc i)
             | Some (Inr (Some r)) \<Rightarrow> Some (Inr (Some r))))
      else Some (Inr None))"

definition dhashtabs_find :: "dhashtabs_t \<Rightarrow> bytes \<Rightarrow> (fault + bytes option) option" where
  "dhashtabs_find t v =
     (case primes_at (dt_cap_index t) of Inl e \<Rightarrow> Some (Inl e)
      | Inr cap \<Rightarrow> dhashtabs_find_loop t (unat cap) v 0)"

definition dhashtabs_size :: "dhashtabs_t \<Rightarrow> size_t" where
  "dhashtabs_size t = dt_size t"


section \<open>Sequences of chain operations\<close>

text \<open>
  A caller's use of a chain: a sequence of calls, each on the chain the previous call left.
  The run stops at the first call that faults or does not return.
\<close>

datatype 'a chain_op = Enqueu 'a | Remove 'a | DequeueFront | DequeueBack

fun apply_op :: "'a queues_t \<Rightarrow> 'a chain_op \<Rightarrow> (fault + 'a queues_t) option" where
  "apply_op q (Enqueu x) = queues_enqueu q x"
| "apply_op q (Remove x) =
     (case queues_remove (Some q) x of None \<Rightarrow> None
      | Some (Inl e) \<Rightarrow> Some (Inl e)
      | Some (Inr (r, qo)) \<Rightarrow> Some (Inr (case qo of None \<Rightarrow> q | Some q' \<Rightarrow> q')))"
| "apply_op q DequeueFront =
     (case queues_dequeue_front q of Inl e \<Rightarrow> Some (Inl e) | Inr (r, q') \<Rightarrow> Some (Inr q'))"
| "apply_op q DequeueBack =
     (case queues_dequeue_back q of Inl e \<Rightarrow> Some (Inl e) | Inr (r, q') \<Rightarrow> Some (Inr q'))"

fun run_ops :: "'a queues_t \<Rightarrow> 'a chain_op list \<Rightarrow> (fault + 'a queues_t) option" where
  "run_ops q [] = Some (Inr q)"
| "run_ops q (c # cs) =
     (case apply_op q c of None \<Rightarrow> None
      | Some (Inl e) \<Rightarrow> Some (Inl e)
      | Some (Inr q') \<Rightarrow> run_ops q' cs)"


section \<open>Example callers\<close>

text \<open>
  A caller's three-way comparator and hash function on integers (shallow containers), and
  on byte records (deep containers): a record is keyed, compared and hashed by its first
  byte.
\<close>

definition int_cmp :: "int \<Rightarrow> int \<Rightarrow> int" where
  "int_cmp a b = (if a < b then - 1 else if a = b then 0 else 1)"

definition int_hash :: "int \<Rightarrow> 64 word" where
  "int_hash a = word_of_int a"

definition bytes_key :: "bytes \<Rightarrow> int" where
  "bytes_key v = (case v of [] \<Rightarrow> 0 | b # bs \<Rightarrow> uint b)"

definition bytes_cmp :: "bytes \<Rightarrow> bytes \<Rightarrow> int" where
  "bytes_cmp a b = int_cmp (bytes_key a) (bytes_key b)"

definition bytes_hash :: "bytes \<Rightarrow> 64 word" where
  "bytes_hash v = (case v of [] \<Rightarrow> 0 | b # bs \<Rightarrow> ucast b)"

text \<open>
  Two chains as two enqueues leave them: a shallow chain holding \<open>1\<close> and \<open>3\<close>, and a
  deep chain holding the two-byte records \<open>(1, 7)\<close> and \<open>(3, 8)\<close>.
\<close>

definition q13 :: "int queues_t" where
  "q13 = \<lparr>q_size = 2, q_cmp = int_cmp, q_head = Some 0, q_tail = Some 1,
          q_nodes = [0 \<mapsto> \<lparr>node_x = 1, node_prev = None, node_next = Some 1\<rparr>,
                     1 \<mapsto> \<lparr>node_x = 3, node_prev = Some 0, node_next = None\<rparr>],
          q_brk = 2\<rparr>"

definition d13 :: "dqueues_t" where
  "d13 = \<lparr>dq_size = 2, dq_nmems = 2, dq_cmp = bytes_cmp, dq_head = Some 0, dq_tail = Some 1,
          dq_nodes = [0 \<mapsto> \<lparr>node_x = [1, 7], node_prev = None, node_next = Some 1\<rparr>,
                      1 \<mapsto> \<lparr>node_x = [3, 8], node_prev = Some 0, node_next = None\<rparr>],
          dq_brk = 2\<rparr>"


section \<open>Specification vocabulary\<close>

subsection \<open>Comparators and order\<close>

text \<open>
  The comparator contract: results are \<open>-1\<close>, \<open>0\<close> or \<open>1\<close> (\<open>three_way\<close>), and the
  comparator is a linear order on the classes of entries that compare equal
  (\<open>total_cmp\<close>).  A sequence is \<open>ascending\<close> when every entry compares below every later
  entry, in particular below its successor.
\<close>

definition three_way :: "('a \<Rightarrow> 'a \<Rightarrow> int) \<Rightarrow> bool" where
  "three_way cmp \<longleftrightarrow> (\<forall>x y. cmp x y = - 1 \<or> cmp x y = 0 \<or> cmp x y = 1)"

definition total_cmp :: "('a \<Rightarrow> 'a \<Rightarrow> int) \<Rightarrow> bool" where
  "total_cmp cmp \<longleftrightarrow>
     three_way cmp
     \<and> (\<forall>x y. cmp y x = - cmp x y)
     \<and> (\<forall>x y z. cmp x y = - 1 \<and> cmp y z = - 1 \<longrightarrow> cmp x z = - 1)
     \<and> (\<forall>x y z. cmp x y = 0 \<longrightarrow> cmp x z = cmp y z)"

definition ascending :: "('a \<Rightarrow> 'a \<Rightarrow> int) \<Rightarrow> 'a list \<Rightarrow> bool" where
  "ascending cmp xs = sorted_wrt (\<lambda>a b. cmp a b < 0) xs"

subsection \<open>Well-formed chains\<close>

text \<open>
  \<open>seg lk h p as e\<close>: following the link \<open>lk\<close> from pointer \<open>p\<close> visits exactly the
  allocated nodes \<open>as\<close> and ends in \<open>e\<close>.  A store with head, tail and allocation mark
  is a well-formed chain over the addresses \<open>as\<close> when the \<open>next\<close> links lead from the
  head through \<open>as\<close> to \<open>NULL\<close>, the \<open>prev\<close> links lead from the tail through \<open>as\<close>
  backwards to \<open>NULL\<close>, and the store holds no other node.  For an empty chain nothing is
  required of the tail pointer.
\<close>

fun seg :: "('a queues_node_t \<Rightarrow> addr option) \<Rightarrow> 'a store \<Rightarrow> addr option \<Rightarrow> addr list
    \<Rightarrow> addr option \<Rightarrow> bool" where
  "seg lk h p [] e = (p = e)"
| "seg lk h p (a # as) e =
     (p = Some a \<and> (case h a of None \<Rightarrow> False | Some n \<Rightarrow> seg lk h (lk n) as e))"

definition chain_vals :: "'a store \<Rightarrow> addr list \<Rightarrow> 'a list" where
  "chain_vals h as = map (\<lambda>a. node_x (the (h a))) as"

definition chain_inv :: "'a store \<Rightarrow> addr option \<Rightarrow> addr option \<Rightarrow> addr \<Rightarrow> addr list \<Rightarrow> bool" where
  "chain_inv h hp tp brk as \<longleftrightarrow>
     distinct as \<and> seg node_next h hp as None
     \<and> (as \<noteq> [] \<longrightarrow> seg node_prev h tp (rev as) None)
     \<and> dom h = set as \<and> (\<forall>a \<in> set as. a < brk)"

definition queues_inv :: "'a queues_t \<Rightarrow> addr list \<Rightarrow> bool" where
  "queues_inv q as \<longleftrightarrow>
     chain_inv (q_nodes q) (q_head q) (q_tail q) (q_brk q) as \<and> q_size q = of_nat (length as)"

definition dqueues_inv :: "dqueues_t \<Rightarrow> addr list \<Rightarrow> bool" where
  "dqueues_inv d as \<longleftrightarrow>
     chain_inv (dq_nodes d) (dq_head d) (dq_tail d) (dq_brk d) as \<and> dq_nmems d = of_nat (length as)"

definition chain_ok :: "('a \<Rightarrow> 'a \<Rightarrow> int) \<Rightarrow> 'a queues_t \<Rightarrow> bool" where
  "chain_ok cmp q \<longleftrightarrow>
     q_cmp q = cmp \<and> (\<exists>as. queues_inv q as \<and> ascending cmp (chain_vals (q_nodes q) as))"

subsection \<open>The chain operations on the sequence of entries\<close>

text \<open>
  What \<open>queues_enqueu\<close>, \<open>queues_remove\<close> and \<open>queues_find\<close> do to the sequence of
  entries of a well-formed chain, step for step as the code proceeds (\<open>enq\<close>, \<open>rem\<close>,
  \<open>lfind\<close>), and plain sorted insertion and deletion (\<open>ins\<close>, \<open>del\<close>), with which the
  former agree on ascending sequences.
\<close>

fun scan_ins :: "('a \<Rightarrow> 'a \<Rightarrow> int) \<Rightarrow> 'a \<Rightarrow> 'a list \<Rightarrow> 'a list" where
  "scan_ins cmp x (y # z # zs) =
     (if cmp x z = - 1 then y # x # z # zs
      else if cmp x z = 0 then y # z # zs
      else y # scan_ins cmp x (z # zs))"
| "scan_ins cmp x ys = ys"

definition enq :: "('a \<Rightarrow> 'a \<Rightarrow> int) \<Rightarrow> 'a \<Rightarrow> 'a list \<Rightarrow> 'a list" where
  "enq cmp x xs =
     (if xs = [] then [x]
      else if cmp x (last xs) = 0 then xs
      else if cmp x (last xs) = 1 then xs @ [x]
      else if cmp x (hd xs) = - 1 then x # xs
      else if cmp x (hd xs) = 0 then xs
      else scan_ins cmp x xs)"

fun scan_rem :: "('a \<Rightarrow> 'a \<Rightarrow> int) \<Rightarrow> 'a \<Rightarrow> 'a list \<Rightarrow> 'a option \<times> 'a list" where
  "scan_rem cmp x (m # r # rs) =
     (if cmp x m = - 1 then (None, m # r # rs)
      else if cmp x m = 0 then (Some m, r # rs)
      else (fst (scan_rem cmp x (r # rs)), m # snd (scan_rem cmp x (r # rs))))"
| "scan_rem cmp x ys = (None, ys)"

definition rem :: "('a \<Rightarrow> 'a \<Rightarrow> int) \<Rightarrow> 'a \<Rightarrow> 'a list \<Rightarrow> 'a option \<times> 'a list" where
  "rem cmp x xs =
     (if xs = [] then (None, [])
      else if cmp x (hd xs) = - 1 then (None, xs)
      else if cmp x (hd xs) = 0 then (Some (hd xs), tl xs)
      else if cmp x (last xs) = 0 then (Some (last xs), butlast xs)
      else if cmp x (last xs) = 1 then (None, xs)
      else (fst (scan_rem cmp x (tl xs)), hd xs # snd (scan_rem cmp x (tl xs))))"

fun lfind :: "('a \<Rightarrow> 'a \<Rightarrow> int) \<Rightarrow> 'a \<Rightarrow> 'a list \<Rightarrow> 'a option" where
  "lfind cmp x [] = None"
| "lfind cmp x (y # ys) =
     (if cmp x y = - 1 then None else if cmp x y = 0 then Some y else lfind cmp x ys)"

fun ins :: "('a \<Rightarrow> 'a \<Rightarrow> int) \<Rightarrow> 'a \<Rightarrow> 'a list \<Rightarrow> 'a list" where
  "ins cmp x [] = [x]"
| "ins cmp x (y # ys) =
     (if cmp x y = - 1 then x # y # ys else if cmp x y = 0 then y # ys else y # ins cmp x ys)"

fun del :: "('a \<Rightarrow> 'a \<Rightarrow> int) \<Rightarrow> 'a \<Rightarrow> 'a list \<Rightarrow> 'a option \<times> 'a list" where
  "del cmp x [] = (None, [])"
| "del cmp x (y # ys) =
     (if cmp x y = - 1 then (None, y # ys) else if cmp x y = 0 then (Some y, ys)
      else (fst (del cmp x ys), y # snd (del cmp x ys)))"

text \<open>
  A caller's use of a directory: a sequence of inserts, keyed removes and rehashes
  (continuing with the directory that \<open>hashtabs_rehash\<close> returns), run on a fresh
  directory; \<open>observe\<close> reads a value off the final directory.
\<close>

datatype 'a dir_op = Insert 'a | RemoveKey 'a | Rehash

fun apply_dir_op :: "'a hashtabs_t \<Rightarrow> 'a dir_op \<Rightarrow> (fault + 'a hashtabs_t) option" where
  "apply_dir_op t (Insert x) = hashtabs_insert t x"
| "apply_dir_op t (RemoveKey x) =
     (case hashtabs_remove t x of None \<Rightarrow> None
      | Some (Inl e) \<Rightarrow> Some (Inl e)
      | Some (Inr (r, t')) \<Rightarrow> Some (Inr t'))"
| "apply_dir_op t Rehash =
     (case hashtabs_rehash t of None \<Rightarrow> None
      | Some (Inl e) \<Rightarrow> Some (Inl e)
      | Some (Inr (t_old, t_new)) \<Rightarrow> Some (Inr t_new))"

fun run_dir_ops :: "'a hashtabs_t \<Rightarrow> 'a dir_op list \<Rightarrow> (fault + 'a hashtabs_t) option" where
  "run_dir_ops t [] = Some (Inr t)"
| "run_dir_ops t (c # cs) =
     (case apply_dir_op t c of None \<Rightarrow> None
      | Some (Inl e) \<Rightarrow> Some (Inl e)
      | Some (Inr t') \<Rightarrow> run_dir_ops t' cs)"

definition dir_run ::
  "('a \<Rightarrow> 'a \<Rightarrow> int) \<Rightarrow> ('a \<Rightarrow> 64 word) \<Rightarrow> size_t \<Rightarrow> 'a dir_op list
     \<Rightarrow> (fault + 'a hashtabs_t) option" where
  "dir_run cmp hash n cs =
     (case hashtabs_new cmp hash n of Inl e \<Rightarrow> Some (Inl e) | Inr t \<Rightarrow> run_dir_ops t cs)"

definition observe :: "('t \<Rightarrow> 'r) \<Rightarrow> (fault + 't) option \<Rightarrow> (fault + 'r) option" where
  "observe f r = map_option (map_sum id f) r"

text \<open>The directory of capacity 11 that holds the single entry \<open>0\<close>.\<close>

definition dir_one :: "int hashtabs_t" where
  "dir_one = \<lparr>t_size = 1, t_load = 1, t_cap_index = 0, t_cmp = int_cmp, t_hash = int_hash,
     t_A = Some ((replicate 11 None)
       [0 := Some \<lparr>q_size = 1, q_cmp = int_cmp, q_head = Some 0, q_tail = Some 0,
                   q_nodes = [0 \<mapsto> \<lparr>node_x = 0, node_prev = None, node_next = None\<rparr>],
                   q_brk = 1\<rparr>])\<rparr>"

text \<open>
  The entries of a chain handle, read by traversal, and the entries of a directory: those
  of its chains in directory order.  A directory is well-formed when its capacity index is
  in the table, its chain array has the length of its capacity, and every allocated chain
  is well-formed and ascending under the directory's comparator and holds only entries
  that hash to its slot.  \<open>hash_respects\<close> is the hash contract: entries that compare
  equal have equal hashes.  \<open>hashtabs_traverse\<close> is the full traversal by the
  directory's own iterator; \<open>ins_dir\<close> is the directory after an insert.
\<close>

definition chain_entries :: "'a queues_t option \<Rightarrow> 'a list" where
  "chain_entries qo =
     (case qo of None \<Rightarrow> []
      | Some q \<Rightarrow> (case queues_traverse q of Some (Inr xs) \<Rightarrow> xs | _ \<Rightarrow> []))"

definition dir_entries :: "'a hashtabs_t \<Rightarrow> 'a list" where
  "dir_entries t = (case t_A t of None \<Rightarrow> [] | Some arr \<Rightarrow> concat (map chain_entries arr))"

definition hash_respects :: "('a \<Rightarrow> 'a \<Rightarrow> int) \<Rightarrow> ('a \<Rightarrow> 64 word) \<Rightarrow> bool" where
  "hash_respects cmp hash \<longleftrightarrow> (\<forall>x y. cmp x y = 0 \<longrightarrow> hash x = hash y)"

definition slot_ok :: "'a hashtabs_t \<Rightarrow> size_t \<Rightarrow> nat \<Rightarrow> 'a queues_t option \<Rightarrow> bool" where
  "slot_ok t cap i qo \<longleftrightarrow>
     (\<forall>q. qo = Some q \<longrightarrow> chain_ok (t_cmp t) q)
     \<and> (\<forall>v \<in> set (chain_entries qo). unat (t_hash t v mod cap) = i)"

definition hashtabs_inv :: "'a hashtabs_t \<Rightarrow> bool" where
  "hashtabs_inv t \<longleftrightarrow>
     (\<exists>cap arr. primes_at (t_cap_index t) = Inr cap \<and> t_A t = Some arr
        \<and> length arr = unat cap \<and> (\<forall>i < length arr. slot_ok t cap i (arr ! i)))"

definition hashtabs_traverse :: "'a hashtabs_t \<Rightarrow> (fault + 'a list) option" where
  "hashtabs_traverse t =
     (case hashtabs_map_r t collect [] of None \<Rightarrow> None
      | Some (Inl e) \<Rightarrow> Some (Inl e)
      | Some (Inr (r, t', acc)) \<Rightarrow> Some (Inr acc))"

definition ins_dir :: "'a hashtabs_t \<Rightarrow> 'a \<Rightarrow> 'a hashtabs_t" where
  "ins_dir t v = (case hashtabs_insert t v of Some (Inr t') \<Rightarrow> t' | _ \<Rightarrow> t)"

text \<open>
  The entries of the chain that \<open>hashtabs_insert\<close> selects for a value, and the result
  of scanning chains in order for the first entry that compares equal.
\<close>

definition slot_entries :: "'a hashtabs_t \<Rightarrow> 'a \<Rightarrow> 'a list" where
  "slot_entries t x =
     (case primes_at (t_cap_index t) of Inl e \<Rightarrow> []
      | Inr cap \<Rightarrow>
         (case t_A t of None \<Rightarrow> []
          | Some arr \<Rightarrow>
             if unat (t_hash t x mod cap) < length arr
             then chain_entries (arr ! unat (t_hash t x mod cap)) else []))"

fun find_chains :: "('a \<Rightarrow> 'a \<Rightarrow> int) \<Rightarrow> 'a \<Rightarrow> 'a queues_t option list \<Rightarrow> 'a option" where
  "find_chains cmp x [] = None"
| "find_chains cmp x (qo # qos) =
     (case fst (del cmp x (chain_entries qo)) of None \<Rightarrow> find_chains cmp x qos
      | Some y \<Rightarrow> Some y)"

text \<open>
  A directory under construction by \<open>hashtabs_rehash\<close>: well-formed, with the comparator,
  hash function and capacity index of the directory that \<open>hashtabs_new\<close> returned.
\<close>

definition dir_like :: "'a hashtabs_t \<Rightarrow> 'a hashtabs_t \<Rightarrow> bool" where
  "dir_like t0 t \<longleftrightarrow>
     hashtabs_inv t \<and> t_cmp t = t_cmp t0 \<and> t_hash t = t_hash t0
     \<and> t_cap_index t = t_cap_index t0"

text \<open>
  Callers outside the contract.  \<open>diff_cmp\<close> and \<open>kcmp\<close> order the integers (the latter
  by their quotient by 11) but return the difference, not only \<open>-1\<close>, \<open>0\<close> and \<open>1\<close>.
  \<open>cmp17\<close> is a three-way total order on the residues modulo 17; together with
  \<open>int_hash\<close> it breaks the hash contract: \<open>0\<close> and \<open>34\<close> compare equal and hash
  differently.
\<close>

definition diff_cmp :: "int \<Rightarrow> int \<Rightarrow> int" where
  "diff_cmp a b = a - b"

definition kcmp :: "int \<Rightarrow> int \<Rightarrow> int" where
  "kcmp a b = a div 11 - b div 11"

definition cmp17 :: "int \<Rightarrow> int \<Rightarrow> int" where
  "cmp17 a b = int_cmp (a mod 17) (b mod 17)"

text \<open>
  What a caller reads off a directory by a keyed call: the entry that \<open>hashtabs_remove\<close>
  returns, and the result of \<open>hashtabs_find\<close>.
\<close>

definition removed_entry :: "'a \<Rightarrow> 'a hashtabs_t \<Rightarrow> (fault + 'a option) option" where
  "removed_entry x t = map_option (map_sum id fst) (hashtabs_remove t x)"

definition find_key :: "'a \<Rightarrow> 'a hashtabs_t \<Rightarrow> (fault + 'a option) option" where
  "find_key x t = hashtabs_find t x"


section \<open>Evaluation lemmas\<close>

declare get_cap_index_loop.simps [simp del]

lemma unat_size_max: "unat (- 1 :: size_t) = 18446744073709551615"
  by (simp add: unsigned_minus_1_eq_mask mask_eq_exp_minus_1)

lemma get_cap_index_5: "get_cap_index 5 = 0"
  by (simp add: get_cap_index_def get_cap_index_loop.simps primes_def NPRIMES_def)

lemma hashtabs_new_5:
  "hashtabs_new cmp hash 5 = Inr \<lparr>t_size = 0, t_load = 0, t_cap_index = 0,
      t_cmp = cmp, t_hash = hash, t_A = Some (replicate 11 None)\<rparr>"
  by (simp add: hashtabs_new_def get_cap_index_5 primes_at_def primes_def calloc_chains_def)

lemma dhashtabs_new_5:
  "dhashtabs_new cmp hash 5 sz = Inr \<lparr>dt_nmems = 0, dt_size = sz, dt_load = 0,
      dt_cap_index = 0, dt_cmp = cmp, dt_hash = hash, dt_A = Some (replicate 11 None)\<rparr>"
  by (simp add: dhashtabs_new_def get_cap_index_5 primes_at_def primes_def calloc_chains_def)

lemmas eval_defs =
  hashtabs_insert_def primes_at_def primes_def int_hash_def int_cmp_def queues_new_def
  queues_enqueu_def hashtabs_remove_def hashtabs_remove_loop.simps queues_remove_def
  node_at_def store_next_def store_prev_def free_node_def queues_size_def hashtabs_find_def
  hashtabs_find_loop.simps queues_find_def find_loop.simps hashtabs_loadfactor_def
  hashtabs_size_def


lemma total_cmp_key: "total_cmp (\<lambda>a b. int_cmp (f a) (f b))"
  unfolding total_cmp_def three_way_def int_cmp_def by auto

lemma total_cmp_int: "total_cmp int_cmp"
  using total_cmp_key[of "\<lambda>x. x"] by simp

lemma total_cmp_bytes: "total_cmp bytes_cmp"
proof -
  have "bytes_cmp = (\<lambda>a b. int_cmp (bytes_key a) (bytes_key b))"
    by (simp add: fun_eq_iff bytes_cmp_def)
  then show ?thesis using total_cmp_key[of bytes_key] by simp
qed

lemma q13_inv: "queues_inv q13 [0, 1]"
  by (auto simp: queues_inv_def chain_inv_def q13_def)

lemma q13_vals: "chain_vals (q_nodes q13) [0, 1] = [1, 3]"
  by (simp add: chain_vals_def q13_def)

lemma d13_inv: "dqueues_inv d13 [0, 1]"
  by (auto simp: dqueues_inv_def chain_inv_def d13_def)

lemma d13_vals: "chain_vals (dq_nodes d13) [0, 1] = [[1, 7], [3, 8]]"
  by (simp add: chain_vals_def d13_def)


section \<open>Chain: head and tail after removing the last element\<close>

text \<open>
  C10.  The claim: in every chain reachable by enqueue, dequeue-front, dequeue-back and
  keyed remove from a fresh chain, the head pointer is null exactly when the tail pointer
  is null, and whichever operation removes the last element leaves both null.

  The code does not do this.  Enqueue \<open>7\<close> into a fresh chain and remove \<open>7\<close> by
  \<open>queues_remove\<close>: the head-removal branch sets \<open>head\<close> to \<open>NULL\<close> and frees the node,
  but leaves \<open>tail\<close> pointing to the freed node.  A following \<open>queues_dequeue_back\<close>
  passes its \<open>tail == NULL\<close> test and reads the freed node.
\<close>

theorem queues_remove_last_keeps_tail:
  "\<exists>q1 q2. queues_enqueu (queues_new int_cmp) 7 = Some (Inr q1)
      \<and> queues_remove (Some q1) 7 = Some (Inr (Some 7, Some q2))
      \<and> q_head q2 = None \<and> q_tail q2 = Some 0 \<and> q_nodes q2 0 = None
      \<and> queues_dequeue_back q2 = Inl DanglingDeref"
  by (simp add: queues_enqueu_def queues_new_def queues_remove_def node_at_def
      free_node_def int_cmp_def queues_dequeue_back_def)


section \<open>Directory: the load counter\<close>

text \<open>
  C6.  The claim: in every directory state reachable by inserts and removes from a fresh
  directory, \<open>load\<close> equals the number of chains that contain at least one entry, also
  after a chain was emptied by removal and then receives a new insert.

  The code does not do this.  In a fresh directory of capacity 11, insert \<open>1\<close>, remove
  \<open>1\<close>, insert \<open>1\<close> again: \<open>hashtabs_remove\<close> decrements \<open>load\<close> when the chain becomes
  empty but keeps the chain allocated, and \<open>hashtabs_insert\<close> increments \<open>load\<close> only
  when it allocates a chain.  Afterwards slot 1 holds the entry \<open>1\<close> and \<open>load\<close> is \<open>0\<close>.
\<close>

theorem hashtabs_load_after_refill:
  "\<exists>t0 t1 t2 t3 arr q.
      hashtabs_new int_cmp int_hash 5 = Inr t0
      \<and> hashtabs_insert t0 1 = Some (Inr t1)
      \<and> hashtabs_remove t1 1 = Some (Inr (Some 1, t2))
      \<and> hashtabs_insert t2 1 = Some (Inr t3)
      \<and> t_load t3 = 0
      \<and> t_A t3 = Some arr \<and> arr ! 1 = Some q \<and> queues_traverse q = Some (Inr [1])
      \<and> hashtabs_find t3 1 = Some (Inr (Some 1))"
  by (simp add: hashtabs_new_5 eval_defs queues_traverse_def queues_map_r_def
      map_r_loop.simps collect_def)


section \<open>Deep directory: the reported size\<close>

text \<open>
  C1.  The claim: for the shallow and for the deep directory, after \<open>k\<close> inserts of
  pairwise distinct keys into a fresh directory the reported size is \<open>k\<close> and every
  inserted key is found.

  The deep directory does not do this.  \<open>dhashtabs_new\<close> stores the record width in the
  field \<open>size\<close> and the element count \<open>0\<close> in \<open>nmems\<close>; \<open>dhashtabs_insert\<close> increments
  \<open>size\<close>, and \<open>dhashtabs_size\<close> returns \<open>size\<close>.  With records of four bytes the
  reported size after one insert is \<open>5\<close>.  The chain allocated by the next insert takes
  the incremented field as its record width and copies five bytes out of a four-byte record.
\<close>

theorem dhashtabs_size_after_one_insert:
  "\<exists>t0 t1. dhashtabs_new bytes_cmp bytes_hash 5 4 = Inr t0
      \<and> dhashtabs_insert t0 [1, 0, 0, 0] = Some (Inr t1)
      \<and> dhashtabs_size t1 = 5
      \<and> dhashtabs_find t1 [1, 0, 0, 0] = Some (Inr (Some [1, 0, 0, 0]))
      \<and> dhashtabs_insert t1 [2, 0, 0, 0] = Some (Inl OutOfBounds)"
  by (simp add: dhashtabs_new_5 dhashtabs_insert_def primes_at_def primes_def bytes_hash_def
      dqueues_new_def dqueues_enqueu_def copy_bytes_def dhashtabs_size_def
      dhashtabs_find_def dhashtabs_find_loop.simps dqueues_find_def find_loop.simps
      bytes_cmp_def bytes_key_def int_cmp_def)


lemma seg_append: "seg lk h p (as @ bs) e \<longleftrightarrow> (\<exists>m. seg lk h p as m \<and> seg lk h m bs e)"
proof (induction as arbitrary: p)
  case Nil
  then show ?case by simp
next
  case (Cons a as)
  show ?case
  proof (cases "h a")
    case None
    then show ?thesis by simp
  next
    case (Some n)
    then show ?thesis using Cons.IH[of "lk n"] by auto
  qed
qed

lemma seg_cong_links:
  "(\<And>a. a \<in> set as \<Longrightarrow> map_option lk (h a) = map_option lk (h' a))
    \<Longrightarrow> seg lk h p as e = seg lk h' p as e"
proof (induction as arbitrary: p)
  case Nil
  then show ?case by simp
next
  case (Cons a as)
  have eq: "map_option lk (h a) = map_option lk (h' a)" using Cons.prems by simp
  have ih: "\<And>r. seg lk h r as e = seg lk h' r as e" using Cons by simp
  show ?case
  proof (cases "h a")
    case None
    then have "h' a = None" using eq by simp
    with None show ?thesis by simp
  next
    case (Some n)
    then obtain n' where n': "h' a = Some n'" "lk n' = lk n" using eq by (cases "h' a") auto
    with Some ih show ?thesis by simp
  qed
qed

lemma seg_snoc:
  "seg lk h p (as @ [a]) e \<longleftrightarrow> (seg lk h p as (Some a) \<and> (\<exists>n. h a = Some n \<and> lk n = e))"
  by (cases "h a") (auto simp: seg_append)

lemma seg_mem: "seg lk h p as e \<Longrightarrow> a \<in> set as \<Longrightarrow> \<exists>n. h a = Some n"
proof (induction as arbitrary: p)
  case Nil
  then show ?case by simp
next
  case (Cons b bs)
  then show ?case by (cases "h b") auto
qed

lemma seg_Cons_iff:
  "seg lk h p (a # as) e \<longleftrightarrow> (p = Some a \<and> (\<exists>n. h a = Some n \<and> seg lk h (lk n) as e))"
  by (cases "h a") simp_all

lemma seg_upd_outside:
  "a \<notin> set as \<Longrightarrow> seg lk (h(a := v)) p as e = seg lk h p as e"
  by (rule seg_cong_links) auto

lemma chain_vals_upd_outside:
  "a \<notin> set as \<Longrightarrow> chain_vals (h(a := v)) as = chain_vals h as"
  by (auto simp: chain_vals_def)

lemma chain_inv_Nil: "chain_inv h hp tp brk [] \<longleftrightarrow> h = Map.empty \<and> hp = None"
  by (auto simp: chain_inv_def)

lemma chain_inv_single:
  "chain_inv (Map.empty(b \<mapsto> \<lparr>node_x = v, node_prev = None, node_next = None\<rparr>))
     (Some b) (Some b) (Suc b) [b]"
  by (simp add: chain_inv_def)

lemma chain_inv_hd: "chain_inv h hp tp brk (a # as) \<Longrightarrow> hp = Some a"
  by (simp add: chain_inv_def)

lemma chain_inv_hp_None: "chain_inv h hp tp brk as \<Longrightarrow> hp = None \<longleftrightarrow> as = []"
  by (cases as) (auto simp: chain_inv_def)

lemma chain_inv_tl: "chain_inv h hp tp brk as \<Longrightarrow> as \<noteq> [] \<Longrightarrow> tp = Some (last as)"
  by (cases as rule: rev_cases) (auto simp: chain_inv_def)

lemma chain_inv_node: "chain_inv h hp tp brk as \<Longrightarrow> a \<in> set as \<Longrightarrow> \<exists>n. h a = Some n"
  by (auto simp: chain_inv_def dest: seg_mem)

lemma chain_inv_fresh: "chain_inv h hp tp brk as \<Longrightarrow> brk \<notin> set as \<and> h brk = None"
  by (auto simp: chain_inv_def)

text \<open>append at the tail\<close>
lemma chain_inv_append:
  assumes inv: "chain_inv h hp tp brk as" and ne: "as \<noteq> []"
  shows "\<exists>t tn. tp = Some t \<and> h t = Some tn \<and> t = last as \<and>
     chain_inv (h(brk \<mapsto> \<lparr>node_x = v, node_prev = tp, node_next = None\<rparr>,
                   t \<mapsto> tn\<lparr>node_next := Some brk\<rparr>)) hp (Some brk) (Suc brk) (as @ [brk])
     \<and> chain_vals (h(brk \<mapsto> \<lparr>node_x = v, node_prev = tp, node_next = None\<rparr>,
                   t \<mapsto> tn\<lparr>node_next := Some brk\<rparr>)) (as @ [brk]) = chain_vals h as @ [v]"
proof -
  obtain bs t where as: "as = bs @ [t]" using ne by (cases as rule: rev_cases) auto
  have tp: "tp = Some t" using chain_inv_tl[OF inv ne] as by simp
  obtain tn where tn: "h t = Some tn" using chain_inv_node[OF inv, of t] as by auto
  have fresh: "brk \<notin> set as" "h brk = None" using chain_inv_fresh[OF inv] by auto
  have dist: "distinct as" and fw: "seg node_next h hp as None"
    and bw: "seg node_prev h tp (rev as) None" and dm: "dom h = set as"
    and bd: "\<forall>a \<in> set as. a < brk"
    using inv ne by (auto simp: chain_inv_def)
  let ?h = "h(brk \<mapsto> \<lparr>node_x = v, node_prev = tp, node_next = None\<rparr>,
              t \<mapsto> tn\<lparr>node_next := Some brk\<rparr>)"
  have tb: "t \<noteq> brk" using fresh as by auto
  have tbs: "t \<notin> set bs" "brk \<notin> set bs" using dist fresh as by auto
  have fw0: "seg node_next h hp bs (Some t)" "node_next tn = None"
    using fw tn by (auto simp: as seg_snoc)
  have "seg node_next ?h hp bs (Some t) = seg node_next h hp bs (Some t)"
    by (rule seg_cong_links) (use tbs in auto)
  then have fw1: "seg node_next ?h hp (as @ [brk]) None"
    using fw0 tb by (simp add: as seg_append)
  have bw0: "seg node_prev h (node_prev tn) (rev bs) None"
    using bw tn by (simp add: as tp)
  have "seg node_prev ?h (node_prev tn) (rev bs) None = seg node_prev h (node_prev tn) (rev bs) None"
    by (rule seg_cong_links) (use tbs in auto)
  then have bw1: "seg node_prev ?h (Some brk) (rev (as @ [brk])) None"
    using bw0 tb by (simp add: as tp)
  have dm1: "dom ?h = set (as @ [brk])" using dm as by auto
  have "chain_inv ?h hp (Some brk) (Suc brk) (as @ [brk])"
    unfolding chain_inv_def using fw1 bw1 dm1 dist fresh bd by (auto simp: less_Suc_eq)
  moreover have "chain_vals ?h (as @ [brk]) = chain_vals h as @ [v]"
    using tbs tb tn by (auto simp: chain_vals_def as)
  ultimately show ?thesis using tp tn as by auto
qed

lemma chain_inv_parts:
  assumes "chain_inv h hp tp brk as"
  shows "distinct as" "seg node_next h hp as None" "as \<noteq> [] \<Longrightarrow> seg node_prev h tp (rev as) None"
    "dom h = set as" "\<And>a. a \<in> set as \<Longrightarrow> a < brk"
  using assms by (auto simp: chain_inv_def)

text \<open>insert before the head\<close>
lemma chain_inv_prepend:
  assumes inv: "chain_inv h hp tp brk as" and ne: "as \<noteq> []"
  shows "\<exists>a an. hp = Some a \<and> h a = Some an \<and> a = hd as \<and>
     chain_inv (h(brk \<mapsto> \<lparr>node_x = v, node_prev = None, node_next = hp\<rparr>,
                   a \<mapsto> an\<lparr>node_prev := Some brk\<rparr>)) (Some brk) tp (Suc brk) (brk # as)
     \<and> chain_vals (h(brk \<mapsto> \<lparr>node_x = v, node_prev = None, node_next = hp\<rparr>,
                   a \<mapsto> an\<lparr>node_prev := Some brk\<rparr>)) (brk # as) = v # chain_vals h as"
proof -
  obtain a bs where as: "as = a # bs" using ne by (cases as) auto
  have hp: "hp = Some a" using chain_inv_hd inv as by fast
  obtain an where an: "h a = Some an" using chain_inv_node[OF inv, of a] as by auto
  have fresh: "brk \<notin> set as" "h brk = None" using chain_inv_fresh[OF inv] by auto
  note p = chain_inv_parts[OF inv]
  let ?h = "h(brk \<mapsto> \<lparr>node_x = v, node_prev = None, node_next = hp\<rparr>,
              a \<mapsto> an\<lparr>node_prev := Some brk\<rparr>)"
  have ab: "a \<noteq> brk" using fresh as by auto
  have abs: "a \<notin> set bs" "brk \<notin> set bs" using p(1) fresh as by auto
  have fw0: "seg node_next h (node_next an) bs None" using p(2) an by (simp add: as)
  have "seg node_next ?h (node_next an) bs None = seg node_next h (node_next an) bs None"
    by (rule seg_cong_links) (use abs in auto)
  then have fw1: "seg node_next ?h (Some brk) (brk # as) None"
    using fw0 ab by (simp add: as hp)
  have bw0: "seg node_prev h tp (rev bs) (Some a)" "node_prev an = None"
    using p(3) an by (auto simp: as seg_snoc)
  have "seg node_prev ?h tp (rev bs) (Some a) = seg node_prev h tp (rev bs) (Some a)"
    by (rule seg_cong_links) (use abs in auto)
  then have bw1: "seg node_prev ?h tp (rev (brk # as)) None"
    using bw0 ab by (simp add: as seg_append)
  have dm1: "dom ?h = set (brk # as)" using p(4) as by auto
  have "chain_inv ?h (Some brk) tp (Suc brk) (brk # as)"
    unfolding chain_inv_def using fw1 bw1 dm1 p(1) p(5) fresh by (auto simp: less_Suc_eq)
  moreover have "chain_vals ?h (brk # as) = v # chain_vals h as"
    using abs ab an by (auto simp: chain_vals_def as)
  ultimately show ?thesis using hp an as by auto
qed

text \<open>the fields of an inner node\<close>
lemma chain_inv_mid:
  assumes inv: "chain_inv h hp tp brk (pre @ a # c # post)"
  shows "\<exists>na nc. h a = Some na \<and> h c = Some nc \<and> node_next na = Some c \<and> node_prev nc = Some a"
proof -
  note p = chain_inv_parts[OF inv]
  obtain na nc where n: "h a = Some na" "h c = Some nc"
    using chain_inv_node[OF inv, of a] chain_inv_node[OF inv, of c] by auto
  have "node_next na = Some c" using p(2) n by (auto simp: seg_append)
  moreover have "node_prev nc = Some a" using p(3) n by (auto simp: seg_append)
  ultimately show ?thesis using n by simp
qed

text \<open>insert between two neighbours\<close>
lemma chain_inv_insert:
  assumes inv: "chain_inv h hp tp brk (pre @ a # c # post)"
    and na: "h a = Some na" and nc: "h c = Some nc"
  shows "chain_inv (h(brk \<mapsto> \<lparr>node_x = v, node_prev = Some a, node_next = Some c\<rparr>,
                   c \<mapsto> nc\<lparr>node_prev := Some brk\<rparr>, a \<mapsto> na\<lparr>node_next := Some brk\<rparr>))
            hp tp (Suc brk) (pre @ a # brk # c # post)
     \<and> chain_vals (h(brk \<mapsto> \<lparr>node_x = v, node_prev = Some a, node_next = Some c\<rparr>,
                   c \<mapsto> nc\<lparr>node_prev := Some brk\<rparr>, a \<mapsto> na\<lparr>node_next := Some brk\<rparr>))
            (pre @ a # brk # c # post)
         = chain_vals h (pre @ [a]) @ v # chain_vals h (c # post)"
proof -
  let ?as = "pre @ a # c # post"
  have fresh: "brk \<notin> set ?as" "h brk = None" using chain_inv_fresh[OF inv] by auto
  note p = chain_inv_parts[OF inv]
  let ?h = "h(brk \<mapsto> \<lparr>node_x = v, node_prev = Some a, node_next = Some c\<rparr>,
              c \<mapsto> nc\<lparr>node_prev := Some brk\<rparr>, a \<mapsto> na\<lparr>node_next := Some brk\<rparr>)"
  have ne: "a \<noteq> brk" "c \<noteq> brk" "a \<noteq> c" using fresh p(1) by auto
  have out: "a \<notin> set pre" "c \<notin> set pre" "brk \<notin> set pre"
       "a \<notin> set post" "c \<notin> set post" "brk \<notin> set post" using p(1) fresh by auto
  have fw0: "seg node_next h hp pre (Some a)" "node_next na = Some c"
       "seg node_next h (node_next nc) post None"
    using p(2) na nc by (auto simp: seg_append)
  have f1: "seg node_next ?h hp pre (Some a) = seg node_next h hp pre (Some a)"
    by (rule seg_cong_links) (use out in auto)
  have f2: "seg node_next ?h (node_next nc) post None = seg node_next h (node_next nc) post None"
    by (rule seg_cong_links) (use out in auto)
  have fw1: "seg node_next ?h hp (pre @ a # brk # c # post) None"
    using fw0 f1 f2 ne by (simp add: seg_append)
  have bw0: "seg node_prev h tp (rev post) (Some c)" "node_prev nc = Some a"
       "seg node_prev h (node_prev na) (rev pre) None"
    using p(3) na nc by (auto simp: seg_append)
  have b1: "seg node_prev ?h tp (rev post) (Some c) = seg node_prev h tp (rev post) (Some c)"
    by (rule seg_cong_links) (use out in auto)
  have b2: "seg node_prev ?h (node_prev na) (rev pre) None = seg node_prev h (node_prev na) (rev pre) None"
    by (rule seg_cong_links) (use out in auto)
  have bw1: "seg node_prev ?h tp (rev (pre @ a # brk # c # post)) None"
    using bw0 b1 b2 ne by (simp add: seg_append)
  have dm1: "dom ?h = set (pre @ a # brk # c # post)" using p(4) by auto
  have "chain_inv ?h hp tp (Suc brk) (pre @ a # brk # c # post)"
    unfolding chain_inv_def using fw1 bw1 dm1 p(1) p(5) fresh by (auto simp: less_Suc_eq)
  moreover have "chain_vals ?h (pre @ a # brk # c # post)
         = chain_vals h (pre @ [a]) @ v # chain_vals h (c # post)"
    using out ne na nc by (auto simp: chain_vals_def)
  ultimately show ?thesis by simp
qed

text \<open>unlink the head\<close>
lemma chain_inv_remove_head:
  assumes inv: "chain_inv h hp tp brk (a # rest)" and na: "h a = Some na"
  shows "\<exists>h1. (if node_next na \<noteq> None then store_prev h (node_next na) None else Inr h) = Inr h1
     \<and> node_next na = (case rest of [] \<Rightarrow> None | c # cs \<Rightarrow> Some c)
     \<and> chain_inv (h1(a := None)) (node_next na) tp brk rest
     \<and> chain_vals (h1(a := None)) rest = chain_vals h rest"
proof (cases rest)
  case Nil
  note p = chain_inv_parts[OF inv]
  have nx: "node_next na = None" using p(2) na Nil by simp
  have "h(a := None) = Map.empty" using p(4) Nil by (auto simp: fun_eq_iff domIff)
  then show ?thesis using nx Nil by (simp add: chain_inv_Nil chain_vals_def)
next
  case (Cons c post)
  note p = chain_inv_parts[OF inv]
  obtain nc where nc: "h c = Some nc" using chain_inv_node[OF inv, of c] Cons by auto
  have nx: "node_next na = Some c" using p(2) na nc Cons by simp
  let ?h = "(h(c \<mapsto> nc\<lparr>node_prev := None\<rparr>))(a := None)"
  have ne: "a \<noteq> c" "a \<notin> set post" "c \<notin> set post" using p(1) Cons by auto
  have fw0: "seg node_next h (node_next nc) post None" using p(2) na nc Cons by simp
  have f1: "seg node_next ?h (node_next nc) post None = seg node_next h (node_next nc) post None"
    by (rule seg_cong_links) (use ne in auto)
  have fw1: "seg node_next ?h (Some c) rest None" using fw0 f1 ne by (simp add: Cons)
  have bw0: "seg node_prev h tp (rev post) (Some c)" using p(3) na nc Cons by (auto simp: seg_append)
  have b1: "seg node_prev ?h tp (rev post) (Some c) = seg node_prev h tp (rev post) (Some c)"
    by (rule seg_cong_links) (use ne in auto)
  have bw1: "seg node_prev ?h tp (rev rest) None" using bw0 b1 ne by (simp add: Cons seg_append)
  have dm1: "dom ?h = set rest" using p(4) p(1) Cons by auto
  have "chain_inv ?h (Some c) tp brk rest"
    unfolding chain_inv_def using fw1 bw1 dm1 p(1) p(5) Cons by auto
  moreover have "chain_vals ?h rest = chain_vals h rest"
    using ne nc by (auto simp: chain_vals_def Cons)
  ultimately show ?thesis using nx nc Cons by (simp add: store_prev_def)
qed

text \<open>unlink the tail\<close>
lemma chain_inv_remove_tail:
  assumes inv: "chain_inv h hp tp brk (rest @ [t])" and tn: "h t = Some tn"
  shows "\<exists>h1. (if node_prev tn \<noteq> None then store_next h (node_prev tn) None else Inr h) = Inr h1
     \<and> node_prev tn = (if rest = [] then None else Some (last rest))
     \<and> chain_inv (h1(t := None)) (if rest = [] then None else hp) (node_prev tn) brk rest
     \<and> chain_vals (h1(t := None)) rest = chain_vals h rest"
proof (cases rest rule: rev_cases)
  case Nil
  note p = chain_inv_parts[OF inv]
  have nx: "node_prev tn = None" using p(3) tn Nil by simp
  have "h(t := None) = Map.empty" using p(4) Nil by (auto simp: fun_eq_iff domIff)
  then show ?thesis using nx Nil by (simp add: chain_inv_Nil chain_vals_def)
next
  case (snoc pre c)
  note p = chain_inv_parts[OF inv]
  obtain nc where nc: "h c = Some nc" using chain_inv_node[OF inv, of c] snoc by auto
  have nx: "node_prev tn = Some c" using p(3) tn nc snoc by simp
  let ?h = "(h(c \<mapsto> nc\<lparr>node_next := None\<rparr>))(t := None)"
  have ne: "t \<noteq> c" "t \<notin> set pre" "c \<notin> set pre" using p(1) snoc by auto
  have bw0: "seg node_prev h (node_prev nc) (rev pre) None" using p(3) tn nc snoc by simp
  have b1: "seg node_prev ?h (node_prev nc) (rev pre) None = seg node_prev h (node_prev nc) (rev pre) None"
    by (rule seg_cong_links) (use ne in auto)
  have bw1: "seg node_prev ?h (Some c) (rev rest) None" using bw0 b1 ne by (simp add: snoc)
  have fw0: "seg node_next h hp pre (Some c)" using p(2) tn nc snoc by (auto simp: seg_append)
  have f1: "seg node_next ?h hp pre (Some c) = seg node_next h hp pre (Some c)"
    by (rule seg_cong_links) (use ne in auto)
  have fw1: "seg node_next ?h hp rest None" using fw0 f1 ne by (simp add: snoc seg_append)
  have dm1: "dom ?h = set rest" using p(4) p(1) snoc by auto
  have "chain_inv ?h hp (Some c) brk rest"
    unfolding chain_inv_def using fw1 bw1 dm1 p(1) p(5) snoc by auto
  moreover have "chain_vals ?h rest = chain_vals h rest"
    using ne nc by (auto simp: chain_vals_def snoc)
  ultimately show ?thesis using nx nc snoc by (simp add: store_next_def)
qed

text \<open>unlink an inner node\<close>
lemma chain_inv_remove_mid:
  assumes inv: "chain_inv h hp tp brk (pre @ p # a # c # post)" and na: "h a = Some na"
  shows "\<exists>h1 h2. node_prev na = Some p \<and> node_next na = Some c
     \<and> store_next h (node_prev na) (node_next na) = Inr h1
     \<and> store_prev h1 (node_next na) (node_prev na) = Inr h2
     \<and> chain_inv (h2(a := None)) hp tp brk (pre @ p # c # post)
     \<and> chain_vals (h2(a := None)) (pre @ p # c # post) = chain_vals h (pre @ p # c # post)"
proof -
  note q = chain_inv_parts[OF inv]
  obtain np nc where n: "h p = Some np" "h c = Some nc"
    using chain_inv_node[OF inv, of p] chain_inv_node[OF inv, of c] by auto
  have lk: "node_next na = Some c" "node_prev na = Some p" "node_next np = Some a"
      "node_prev nc = Some a"
    using q(2) q(3) n na by (auto simp: seg_append)
  have ne: "p \<noteq> a" "p \<noteq> c" "a \<noteq> c" using q(1) by auto
  have out: "p \<notin> set pre" "a \<notin> set pre" "c \<notin> set pre"
      "p \<notin> set post" "a \<notin> set post" "c \<notin> set post" using q(1) by auto
  let ?h = "(h(p \<mapsto> np\<lparr>node_next := Some c\<rparr>, c \<mapsto> nc\<lparr>node_prev := Some p\<rparr>))(a := None)"
  have fw0: "seg node_next h hp pre (Some p)" "seg node_next h (node_next nc) post None"
    using q(2) n na by (auto simp: seg_append)
  have f1: "seg node_next ?h hp pre (Some p) = seg node_next h hp pre (Some p)"
    by (rule seg_cong_links) (use out in auto)
  have f2: "seg node_next ?h (node_next nc) post None = seg node_next h (node_next nc) post None"
    by (rule seg_cong_links) (use out in auto)
  have fw1: "seg node_next ?h hp (pre @ p # c # post) None"
    using fw0 f1 f2 ne by (simp add: seg_append)
  have bw0: "seg node_prev h tp (rev post) (Some c)" "seg node_prev h (node_prev np) (rev pre) None"
    using q(3) n na by (auto simp: seg_append)
  have b1: "seg node_prev ?h tp (rev post) (Some c) = seg node_prev h tp (rev post) (Some c)"
    by (rule seg_cong_links) (use out in auto)
  have b2: "seg node_prev ?h (node_prev np) (rev pre) None = seg node_prev h (node_prev np) (rev pre) None"
    by (rule seg_cong_links) (use out in auto)
  have bw1: "seg node_prev ?h tp (rev (pre @ p # c # post)) None"
    using bw0 b1 b2 ne by (simp add: seg_append)
  have dm1: "dom ?h = set (pre @ p # c # post)" using q(4) q(1) by auto
  have "chain_inv ?h hp tp brk (pre @ p # c # post)"
    unfolding chain_inv_def using fw1 bw1 dm1 q(1) q(5) by auto
  moreover have "chain_vals ?h (pre @ p # c # post) = chain_vals h (pre @ p # c # post)"
    using out ne n by (auto simp: chain_vals_def)
  ultimately show ?thesis using lk n ne by (simp add: store_next_def store_prev_def)
qed

lemma chain_vals_simps:
  "chain_vals h [] = []"
  "chain_vals h (a # as) = node_x (the (h a)) # chain_vals h as"
  "chain_vals h (as @ bs) = chain_vals h as @ chain_vals h bs"
  by (simp_all add: chain_vals_def)

lemma queues_inv_chain: "queues_inv q as \<Longrightarrow> chain_inv (q_nodes q) (q_head q) (q_tail q) (q_brk q) as"
  by (simp add: queues_inv_def)

lemma three_wayD: "three_way cmp \<Longrightarrow> cmp x y \<noteq> - 1 \<Longrightarrow> cmp x y \<noteq> 0 \<Longrightarrow> cmp x y = 1"
  unfolding three_way_def by blast

lemma enqueu_body_refine:
  assumes tw: "three_way (q_cmp q)"
  shows "queues_inv q (pre @ a # rest) \<Longrightarrow>
    \<exists>q' as'. enqueu_body q x (Some a) = Some (Inr q') \<and> queues_inv q' as'
      \<and> chain_vals (q_nodes q') as'
          = chain_vals (q_nodes q) pre @ scan_ins (q_cmp q) x (chain_vals (q_nodes q) (a # rest))
      \<and> q_cmp q' = q_cmp q \<and> q_head q' = q_head q \<and> q_tail q' = q_tail q
      \<and> (q' = q \<or> length as' = Suc (length (pre @ a # rest)))"
proof (induction rest arbitrary: pre a)
  case Nil
  note inv = queues_inv_chain[OF Nil.prems]
  obtain na where na: "q_nodes q a = Some na" using chain_inv_node[OF inv, of a] by auto
  have "node_next na = None" using chain_inv_parts(2)[OF inv] na by (simp add: seg_append)
  then have "enqueu_body q x (Some a) = Some (Inr q)"
    using na by (subst enqueu_body.simps) (simp add: node_at_def)
  then show ?case using Nil.prems
    by (intro exI[of _ q] exI[of _ "pre @ [a]"]) (simp add: chain_vals_simps)
next
  case (Cons b rest)
  note inv = queues_inv_chain[OF Cons.prems]
  obtain na nb where n: "q_nodes q a = Some na" "q_nodes q b = Some nb" "node_next na = Some b"
    using chain_inv_mid[OF inv] by auto
  have fresh: "q_brk q \<noteq> a" "q_brk q \<noteq> b" "a \<noteq> b"
    using chain_inv_fresh[OF inv] chain_inv_parts(1)[OF inv] by auto
  let ?c = "q_cmp q x (node_x nb)"
  consider (lt) "?c = - 1" | (eq) "?c = 0" | (gt) "?c = 1" using three_wayD[OF tw] by blast
  then show ?case
  proof cases
    case lt
    let ?h = "(q_nodes q)(q_brk q \<mapsto> \<lparr>node_x = x, node_prev = Some a, node_next = Some b\<rparr>,
                   b \<mapsto> nb\<lparr>node_prev := Some (q_brk q)\<rparr>, a \<mapsto> na\<lparr>node_next := Some (q_brk q)\<rparr>)"
    let ?q = "q\<lparr>q_nodes := ?h, q_brk := Suc (q_brk q), q_size := q_size q + 1\<rparr>"
    have ins: "chain_inv ?h (q_head q) (q_tail q) (Suc (q_brk q)) (pre @ a # q_brk q # b # rest)"
      "chain_vals ?h (pre @ a # q_brk q # b # rest)
         = chain_vals (q_nodes q) (pre @ [a]) @ x # chain_vals (q_nodes q) (b # rest)"
      using chain_inv_insert[OF inv n(1) n(2), of x] by auto
    have run: "enqueu_body q x (Some a) = Some (Inr ?q)"
      using n lt fresh by (subst enqueu_body.simps)
        (simp add: node_at_def store_prev_def store_next_def)
    have inv': "queues_inv ?q (pre @ a # q_brk q # b # rest)"
      using ins(1) Cons.prems by (simp add: queues_inv_def)
    have "chain_vals (q_nodes q) (pre @ [a]) @ x # chain_vals (q_nodes q) (b # rest)
        = chain_vals (q_nodes q) pre @ scan_ins (q_cmp q) x (chain_vals (q_nodes q) (a # b # rest))"
      using lt n by (simp add: chain_vals_simps)
    with ins(2) have vals: "chain_vals (q_nodes ?q) (pre @ a # q_brk q # b # rest)
        = chain_vals (q_nodes q) pre @ scan_ins (q_cmp q) x (chain_vals (q_nodes q) (a # b # rest))"
      by simp
    have rest': "q_cmp ?q = q_cmp q" "q_head ?q = q_head q" "q_tail ?q = q_tail q"
      "length (pre @ a # q_brk q # b # rest) = Suc (length (pre @ a # b # rest))"
      by simp_all
    show ?thesis using run inv' vals rest' by blast
  next
    case eq
    have "enqueu_body q x (Some a) = Some (Inr q)"
      using n eq by (subst enqueu_body.simps) (simp add: node_at_def)
    then show ?thesis using Cons.prems eq n
      by (intro exI[of _ q] exI[of _ "pre @ a # b # rest"]) (simp add: chain_vals_simps)
  next
    case gt
    have step: "enqueu_body q x (Some a) = enqueu_body q x (Some b)"
      using n gt by (subst enqueu_body.simps) (simp add: node_at_def)
    have "queues_inv q ((pre @ [a]) @ b # rest)" using Cons.prems by simp
    from Cons.IH[OF this] obtain q' as' where
      r: "enqueu_body q x (Some b) = Some (Inr q')" "queues_inv q' as'"
        "chain_vals (q_nodes q') as' = chain_vals (q_nodes q) (pre @ [a])
            @ scan_ins (q_cmp q) x (chain_vals (q_nodes q) (b # rest))"
        "q_cmp q' = q_cmp q" "q_head q' = q_head q" "q_tail q' = q_tail q"
        "q' = q \<or> length as' = Suc (length ((pre @ [a]) @ b # rest))"
      by blast
    show ?thesis using r step gt n
      by (intro exI[of _ q'] exI[of _ as']) (simp add: chain_vals_simps)
  qed
qed

lemma chain_vals_last: "as \<noteq> [] \<Longrightarrow> h (last as) = Some n \<Longrightarrow> last (chain_vals h as) = node_x n"
  by (simp add: chain_vals_def last_map)

lemma chain_vals_hd: "as \<noteq> [] \<Longrightarrow> h (hd as) = Some n \<Longrightarrow> hd (chain_vals h as) = node_x n"
  by (cases as) (simp_all add: chain_vals_def)

lemma chain_vals_Nil_iff: "chain_vals h as = [] \<longleftrightarrow> as = []"
  by (simp add: chain_vals_def)

lemma length_chain_vals: "length (chain_vals h as) = length as"
  by (simp add: chain_vals_def)

lemma queues_enqueu_refine:
  assumes tw: "three_way (q_cmp q)" and qinv: "queues_inv q as"
  shows "\<exists>q' as'. queues_enqueu q x = Some (Inr q') \<and> queues_inv q' as'
      \<and> chain_vals (q_nodes q') as' = enq (q_cmp q) x (chain_vals (q_nodes q) as)
      \<and> q_cmp q' = q_cmp q
      \<and> (q' = q \<or> length as' = Suc (length as))"
proof (cases "as = []")
  case True
  note inv = queues_inv_chain[OF qinv]
  have e: "q_nodes q = Map.empty" "q_head q = None" using inv True by (auto simp: chain_inv_Nil)
  let ?h = "(q_nodes q)(q_brk q \<mapsto> \<lparr>node_x = x, node_prev = None, node_next = None\<rparr>)"
  let ?q = "q\<lparr>q_nodes := ?h, q_brk := Suc (q_brk q), q_head := Some (q_brk q),
               q_tail := Some (q_brk q), q_size := 1\<rparr>"
  have run: "queues_enqueu q x = Some (Inr ?q)" using e by (simp add: queues_enqueu_def)
  have inv': "queues_inv ?q [q_brk q]"
    using chain_inv_single[of "q_brk q" x] e by (simp add: queues_inv_def)
  have vals: "chain_vals (q_nodes ?q) [q_brk q] = enq (q_cmp q) x (chain_vals (q_nodes q) as)"
    using True by (simp add: chain_vals_def enq_def)
  have rest': "q_cmp ?q = q_cmp q" "length [q_brk q] = Suc (length as)" using True by simp_all
  show ?thesis using run inv' vals rest' by blast
next
  case False
  note inv = queues_inv_chain[OF qinv]
  have hne: "q_head q \<noteq> None" using chain_inv_hp_None[OF inv] False by simp
  have tp: "q_tail q = Some (last as)" using chain_inv_tl[OF inv False] .
  have hp: "q_head q = Some (hd as)" using chain_inv_parts(2)[OF inv] False by (cases as) auto
  obtain tn where tn: "q_nodes q (last as) = Some tn" using chain_inv_node[OF inv, of "last as"] False by auto
  obtain hn where hn: "q_nodes q (hd as) = Some hn" using chain_inv_node[OF inv, of "hd as"] False by auto
  have lv: "last (chain_vals (q_nodes q) as) = node_x tn" using False tn by (rule chain_vals_last)
  have hv: "hd (chain_vals (q_nodes q) as) = node_x hn" using False hn by (rule chain_vals_hd)
  have vne: "chain_vals (q_nodes q) as \<noteq> []" using False by (simp add: chain_vals_Nil_iff)
  have fresh: "q_brk q \<noteq> last as" "q_brk q \<noteq> hd as" using chain_inv_fresh[OF inv] False by auto
  let ?c = "q_cmp q x (node_x tn)"
  let ?d = "q_cmp q x (node_x hn)"
  consider (teq) "?c = 0" | (tgt) "?c = 1" | (hlt) "?c = - 1" "?d = - 1" | (heq) "?c = - 1" "?d = 0"
    | (body) "?c = - 1" "?d = 1"
    using three_wayD[OF tw] by blast
  then show ?thesis
  proof cases
    case teq
    have "queues_enqueu q x = Some (Inr q)" using hp tp tn teq by (simp add: queues_enqueu_def node_at_def)
    moreover have "chain_vals (q_nodes q) as = enq (q_cmp q) x (chain_vals (q_nodes q) as)"
      using vne lv teq by (simp add: enq_def)
    ultimately show ?thesis using qinv by blast
  next
    case tgt
    let ?h = "(q_nodes q)(q_brk q \<mapsto> \<lparr>node_x = x, node_prev = q_tail q, node_next = None\<rparr>,
                 last as \<mapsto> tn\<lparr>node_next := Some (q_brk q)\<rparr>)"
    let ?q = "q\<lparr>q_nodes := ?h, q_brk := Suc (q_brk q), q_tail := Some (q_brk q),
                 q_size := q_size q + 1\<rparr>"
    have app: "chain_inv ?h (q_head q) (Some (q_brk q)) (Suc (q_brk q)) (as @ [q_brk q])"
      "chain_vals ?h (as @ [q_brk q]) = chain_vals (q_nodes q) as @ [x]"
      using chain_inv_append[OF inv False, of x] tn by auto
    have run: "queues_enqueu q x = Some (Inr ?q)"
      using hp tp tn tgt fresh by (simp add: queues_enqueu_def node_at_def store_next_def)
    have inv': "queues_inv ?q (as @ [q_brk q])" using app(1) qinv by (simp add: queues_inv_def)
    have "chain_vals (q_nodes q) as @ [x] = enq (q_cmp q) x (chain_vals (q_nodes q) as)"
      using vne lv tgt by (simp add: enq_def)
    with app(2) have vals: "chain_vals (q_nodes ?q) (as @ [q_brk q]) = enq (q_cmp q) x (chain_vals (q_nodes q) as)"
      by simp
    have rest': "q_cmp ?q = q_cmp q" "length (as @ [q_brk q]) = Suc (length as)" by simp_all
    show ?thesis using run inv' vals rest' by blast
  next
    case hlt
    let ?h = "(q_nodes q)(q_brk q \<mapsto> \<lparr>node_x = x, node_prev = None, node_next = q_head q\<rparr>,
                 hd as \<mapsto> hn\<lparr>node_prev := Some (q_brk q)\<rparr>)"
    let ?q = "q\<lparr>q_nodes := ?h, q_brk := Suc (q_brk q), q_head := Some (q_brk q),
                 q_size := q_size q + 1\<rparr>"
    have pre: "chain_inv ?h (Some (q_brk q)) (q_tail q) (Suc (q_brk q)) (q_brk q # as)"
      "chain_vals ?h (q_brk q # as) = x # chain_vals (q_nodes q) as"
      using chain_inv_prepend[OF inv False, of x] hn by auto
    have run: "queues_enqueu q x = Some (Inr ?q)"
      using tp tn hp hn hlt fresh by (simp add: queues_enqueu_def node_at_def store_prev_def)
    have inv': "queues_inv ?q (q_brk q # as)" using pre(1) qinv by (simp add: queues_inv_def)
    have "x # chain_vals (q_nodes q) as = enq (q_cmp q) x (chain_vals (q_nodes q) as)"
      using vne lv hv hlt by (simp add: enq_def)
    with pre(2) have vals: "chain_vals (q_nodes ?q) (q_brk q # as) = enq (q_cmp q) x (chain_vals (q_nodes q) as)"
      by simp
    have rest': "q_cmp ?q = q_cmp q" "length (q_brk q # as) = Suc (length as)" by simp_all
    show ?thesis using run inv' vals rest' by blast
  next
    case heq
    have "queues_enqueu q x = Some (Inr q)"
      using tp tn hp hn heq by (simp add: queues_enqueu_def node_at_def)
    moreover have "chain_vals (q_nodes q) as = enq (q_cmp q) x (chain_vals (q_nodes q) as)"
      using vne lv hv heq by (simp add: enq_def)
    ultimately show ?thesis using qinv by blast
  next
    case body
    have run: "queues_enqueu q x = enqueu_body q x (Some (hd as))"
      using tp tn hp hn body by (simp add: queues_enqueu_def node_at_def)
    have as: "as = [] @ hd as # tl as" using False by simp
    have "queues_inv q ([] @ hd as # tl as)" using qinv False by simp
    from enqueu_body_refine[OF tw this, of x] obtain q' as' where
      r: "enqueu_body q x (Some (hd as)) = Some (Inr q')" "queues_inv q' as'"
         "chain_vals (q_nodes q') as' = scan_ins (q_cmp q) x (chain_vals (q_nodes q) (hd as # tl as))"
         "q_cmp q' = q_cmp q" "q' = q \<or> length as' = Suc (length (hd as # tl as))"
      by (auto simp: chain_vals_simps)
    have "scan_ins (q_cmp q) x (chain_vals (q_nodes q) as) = enq (q_cmp q) x (chain_vals (q_nodes q) as)"
      using vne lv hv body by (simp add: enq_def)
    then show ?thesis using r run False by (metis list.collapse length_Cons)
  qed
qed

lemma of_nat_Suc_minus_1: "(of_nat (Suc n) :: size_t) - 1 = of_nat n"
  by simp

lemma remove_body_refine:
  assumes tw: "three_way (q_cmp q)"
  shows "queues_inv q (pre @ p # a # rest) \<Longrightarrow>
    \<exists>q' as'. remove_body q x (Some a)
         = Some (Inr (fst (scan_rem (q_cmp q) x (chain_vals (q_nodes q) (a # rest))), q'))
      \<and> queues_inv q' as'
      \<and> chain_vals (q_nodes q') as'
          = chain_vals (q_nodes q) (pre @ [p]) @ snd (scan_rem (q_cmp q) x (chain_vals (q_nodes q) (a # rest)))
      \<and> q_cmp q' = q_cmp q
      \<and> (fst (scan_rem (q_cmp q) x (chain_vals (q_nodes q) (a # rest))) = None \<longrightarrow> q' = q)"
proof (induction rest arbitrary: pre p a)
  case Nil
  note inv = queues_inv_chain[OF Nil.prems]
  have "q_tail q = Some a" using chain_inv_tl[OF inv] by simp
  then have "remove_body q x (Some a) = Some (Inr (None, q))"
    by (subst remove_body.simps) simp
  then show ?case using Nil.prems
    by (intro exI[of _ q] exI[of _ "pre @ [p, a]"]) (simp add: chain_vals_simps)
next
  case (Cons c post)
  note inv = queues_inv_chain[OF Cons.prems]
  have tl: "q_tail q = Some (last (c # post))" using chain_inv_tl[OF inv] by simp
  have nt: "Some a \<noteq> q_tail q" using chain_inv_parts(1)[OF inv] tl by auto
  obtain na where na: "q_nodes q a = Some na" using chain_inv_node[OF inv, of a] by auto
  obtain nc where nc: "q_nodes q c = Some nc" using chain_inv_node[OF inv, of c] by auto
  let ?c = "q_cmp q x (node_x na)"
  have vs: "chain_vals (q_nodes q) (a # c # post) = node_x na # node_x nc # chain_vals (q_nodes q) post"
    using na nc by (simp add: chain_vals_simps)
  consider (lt) "?c = - 1" | (eq) "?c = 0" | (gt) "?c = 1" using three_wayD[OF tw] by blast
  then show ?case
  proof cases
    case lt
    have "remove_body q x (Some a) = Some (Inr (None, q))"
      using nt na lt by (subst remove_body.simps) (simp add: node_at_def)
    then show ?thesis using Cons.prems lt vs
      by (intro exI[of _ q] exI[of _ "pre @ p # a # c # post"]) (simp add: chain_vals_simps)
  next
    case eq
    from chain_inv_remove_mid[OF inv na] obtain h1 h2 where
      m: "node_prev na = Some p" "node_next na = Some c"
         "store_next (q_nodes q) (node_prev na) (node_next na) = Inr h1"
         "store_prev h1 (node_next na) (node_prev na) = Inr h2"
         "chain_inv (h2(a := None)) (q_head q) (q_tail q) (q_brk q) (pre @ p # c # post)"
         "chain_vals (h2(a := None)) (pre @ p # c # post) = chain_vals (q_nodes q) (pre @ p # c # post)"
      by blast
    let ?q = "q\<lparr>q_nodes := h2(a := None), q_size := q_size q - 1\<rparr>"
    have r: "fst (scan_rem (q_cmp q) x (chain_vals (q_nodes q) (a # c # post))) = Some (node_x na)"
      using vs eq by simp
    have run: "remove_body q x (Some a) = Some (Inr (Some (node_x na), ?q))"
      using nt na eq m(3,4) by (subst remove_body.simps) (simp add: node_at_def free_node_def)
    have inv': "queues_inv ?q (pre @ p # c # post)"
      using m(5) Cons.prems by (simp add: queues_inv_def)
    have vals: "chain_vals (q_nodes ?q) (pre @ p # c # post)
       = chain_vals (q_nodes q) (pre @ [p]) @ snd (scan_rem (q_cmp q) x (chain_vals (q_nodes q) (a # c # post)))"
      using m(6) vs eq nc by (simp add: chain_vals_simps)
    have rest': "q_cmp ?q = q_cmp q" by simp
    show ?thesis unfolding r using run inv' vals[unfolded r] rest' r by blast
  next
    case gt
    have nx: "node_next na = Some c"
      using chain_inv_mid[of "q_nodes q" _ _ _ "pre @ [p]" a c post] inv na by auto
    have step: "remove_body q x (Some a) = remove_body q x (Some c)"
      using nt na gt nx by (subst remove_body.simps) (simp add: node_at_def)
    have "queues_inv q ((pre @ [p]) @ a # c # post)" using Cons.prems by simp
    from Cons.IH[OF this] obtain q' as' where
      r: "remove_body q x (Some c)
           = Some (Inr (fst (scan_rem (q_cmp q) x (chain_vals (q_nodes q) (c # post))), q'))"
        "queues_inv q' as'"
        "chain_vals (q_nodes q') as' = chain_vals (q_nodes q) ((pre @ [p]) @ [a])
            @ snd (scan_rem (q_cmp q) x (chain_vals (q_nodes q) (c # post)))"
        "q_cmp q' = q_cmp q"
        "fst (scan_rem (q_cmp q) x (chain_vals (q_nodes q) (c # post))) = None \<longrightarrow> q' = q"
      by (elim exE conjE) (rule that; assumption)
    have e: "fst (scan_rem (q_cmp q) x (chain_vals (q_nodes q) (a # c # post)))
        = fst (scan_rem (q_cmp q) x (chain_vals (q_nodes q) (c # post)))"
      "chain_vals (q_nodes q) (pre @ [p]) @ snd (scan_rem (q_cmp q) x (chain_vals (q_nodes q) (a # c # post)))
        = chain_vals (q_nodes q') as'"
      using r(3) gt vs na nc by (simp_all add: chain_vals_simps)
    show ?thesis unfolding e(1) step using r e(2) by metis
  qed
qed

lemma butlast_chain_vals: "chain_vals h (butlast as) = butlast (chain_vals h as)"
  by (simp add: chain_vals_def map_butlast)

lemma tl_chain_vals: "chain_vals h (tl as) = tl (chain_vals h as)"
  by (simp add: chain_vals_def map_tl)

lemma queues_remove_refine:
  assumes tw: "three_way (q_cmp q)" and qinv: "queues_inv q as"
  shows "\<exists>q' as'. queues_remove (Some q) x
         = Some (Inr (fst (rem (q_cmp q) x (chain_vals (q_nodes q) as)), Some q'))
      \<and> queues_inv q' as'
      \<and> chain_vals (q_nodes q') as' = snd (rem (q_cmp q) x (chain_vals (q_nodes q) as))
      \<and> q_cmp q' = q_cmp q
      \<and> (fst (rem (q_cmp q) x (chain_vals (q_nodes q) as)) = None \<longrightarrow> q' = q)"
proof (cases "as = []")
  case True
  note inv = queues_inv_chain[OF qinv]
  have "q_head q = None" using inv True by (auto simp: chain_inv_Nil)
  then have "queues_remove (Some q) x = Some (Inr (None, Some q))" by (simp add: queues_remove_def)
  then show ?thesis using qinv True
    by (intro exI[of _ q] exI[of _ "[]"]) (simp add: rem_def chain_vals_simps)
next
  case False
  note inv = queues_inv_chain[OF qinv]
  let ?vs = "chain_vals (q_nodes q) as"
  have tp: "q_tail q = Some (last as)" using chain_inv_tl[OF inv False] .
  have hp: "q_head q = Some (hd as)" using chain_inv_parts(2)[OF inv] False by (cases as) auto
  obtain tn where tn: "q_nodes q (last as) = Some tn"
    using chain_inv_node[OF inv, of "last as"] False by auto
  obtain hn where hn: "q_nodes q (hd as) = Some hn"
    using chain_inv_node[OF inv, of "hd as"] False by auto
  have lv: "last ?vs = node_x tn" using False tn by (rule chain_vals_last)
  have hv: "hd ?vs = node_x hn" using False hn by (rule chain_vals_hd)
  have vne: "?vs \<noteq> []" using False by (simp add: chain_vals_Nil_iff)
  let ?c = "q_cmp q x (node_x hn)"
  let ?d = "q_cmp q x (node_x tn)"
  consider (hlt) "?c = - 1" | (heq) "?c = 0" | (teq) "?c = 1" "?d = 0" | (tgt) "?c = 1" "?d = 1"
    | (body) "?c = 1" "?d = - 1"
    using three_wayD[OF tw] by blast
  then show ?thesis
  proof cases
    case hlt
    have "queues_remove (Some q) x = Some (Inr (None, Some q))"
      using hp hn hlt by (simp add: queues_remove_def node_at_def)
    moreover have "rem (q_cmp q) x ?vs = (None, ?vs)" using vne hv hlt by (simp add: rem_def)
    ultimately show ?thesis using qinv by (intro exI[of _ q] exI[of _ as]) simp
  next
    case heq
    have as: "as = hd as # tl as" using False by simp
    have inv1: "chain_inv (q_nodes q) (q_head q) (q_tail q) (q_brk q) (hd as # tl as)"
      using inv as by simp
    from chain_inv_remove_head[OF inv1 hn] obtain h1 where
      m: "(if node_next hn \<noteq> None then store_prev (q_nodes q) (node_next hn) None
           else Inr (q_nodes q)) = Inr h1"
         "chain_inv (h1(hd as := None)) (node_next hn) (q_tail q) (q_brk q) (tl as)"
         "chain_vals (h1(hd as := None)) (tl as) = chain_vals (q_nodes q) (tl as)"
      by blast
    let ?q = "q\<lparr>q_head := node_next hn, q_nodes := h1(hd as := None), q_size := q_size q - 1\<rparr>"
    have r: "rem (q_cmp q) x ?vs = (Some (node_x hn), tl ?vs)" using vne hv heq by (simp add: rem_def)
    have run: "queues_remove (Some q) x = Some (Inr (Some (node_x hn), Some ?q))"
      using hp hn heq m(1) by (simp add: queues_remove_def node_at_def free_node_def)
    have "q_size q = of_nat (Suc (length (tl as)))" using qinv False by (simp add: queues_inv_def)
    then have inv': "queues_inv ?q (tl as)" using m(2) by (simp add: queues_inv_def)
    have vals: "chain_vals (q_nodes ?q) (tl as) = tl ?vs" using m(3) by (simp add: tl_chain_vals)
    have rest': "q_cmp ?q = q_cmp q" by simp
    show ?thesis unfolding r using run inv' vals rest' by auto
  next
    case teq
    have "node_x hn \<noteq> node_x tn" using teq by auto
    then have "hd as \<noteq> last as" using hn tn by auto
    then have bne: "butlast as \<noteq> []" using False
      by (metis append_butlast_last_id append_Nil list.sel(1) last_ConsL
          butlast.simps(2) list.collapse)
    have as: "as = butlast as @ [last as]" using False by simp
    have inv1: "chain_inv (q_nodes q) (q_head q) (q_tail q) (q_brk q) (butlast as @ [last as])"
      using inv as by simp
    from chain_inv_remove_tail[OF inv1 tn] bne obtain h1 where
      m: "(if node_prev tn \<noteq> None then store_next (q_nodes q) (node_prev tn) None
           else Inr (q_nodes q)) = Inr h1"
         "chain_inv (h1(last as := None)) (q_head q) (node_prev tn) (q_brk q) (butlast as)"
         "chain_vals (h1(last as := None)) (butlast as) = chain_vals (q_nodes q) (butlast as)"
      by auto
    let ?q = "q\<lparr>q_tail := node_prev tn, q_nodes := h1(last as := None), q_size := q_size q - 1\<rparr>"
    have r: "rem (q_cmp q) x ?vs = (Some (node_x tn), butlast ?vs)"
      using vne hv lv teq by (simp add: rem_def)
    have run: "queues_remove (Some q) x = Some (Inr (Some (node_x tn), Some ?q))"
      using hp hn tp tn teq m(1) by (simp add: queues_remove_def node_at_def free_node_def)
    have "length as = Suc (length (butlast as))" using False by simp
    then have "q_size q = of_nat (Suc (length (butlast as)))" using qinv by (simp add: queues_inv_def)
    then have inv': "queues_inv ?q (butlast as)" using m(2) by (simp add: queues_inv_def)
    have vals: "chain_vals (q_nodes ?q) (butlast as) = butlast ?vs"
      using m(3) by (simp add: butlast_chain_vals)
    have rest': "q_cmp ?q = q_cmp q" by simp
    show ?thesis unfolding r using run inv' vals rest' by auto
  next
    case tgt
    have "queues_remove (Some q) x = Some (Inr (None, Some q))"
      using hp hn tp tn tgt by (simp add: queues_remove_def node_at_def)
    moreover have "rem (q_cmp q) x ?vs = (None, ?vs)" using vne hv lv tgt by (simp add: rem_def)
    ultimately show ?thesis using qinv by (intro exI[of _ q] exI[of _ as]) simp
  next
    case body
    have "node_x hn \<noteq> node_x tn" using body by auto
    then have ne: "hd as \<noteq> last as" using hn tn by auto
    then obtain a rest where tl: "tl as = a # rest" using False
      by (cases as) (auto split: if_splits simp: neq_Nil_conv)
    have as: "as = [] @ hd as # a # rest" using False tl by (cases as) auto
    have inv1: "queues_inv q ([] @ hd as # a # rest)" using qinv as by simp
    have nx: "node_next hn = Some a"
      using chain_inv_mid[of "q_nodes q" _ _ _ "[]" "hd as" a rest] inv as hn by auto
    from remove_body_refine[OF tw inv1, of x] obtain q' as' where
      r: "remove_body q x (Some a)
           = Some (Inr (fst (scan_rem (q_cmp q) x (chain_vals (q_nodes q) (a # rest))), q'))"
        "queues_inv q' as'"
        "chain_vals (q_nodes q') as' = chain_vals (q_nodes q) ([] @ [hd as])
            @ snd (scan_rem (q_cmp q) x (chain_vals (q_nodes q) (a # rest)))"
        "q_cmp q' = q_cmp q"
        "fst (scan_rem (q_cmp q) x (chain_vals (q_nodes q) (a # rest))) = None \<longrightarrow> q' = q"
      by (elim exE conjE) (rule that; assumption)
    have tv: "chain_vals (q_nodes q) (a # rest) = tl ?vs" using tl by (simp add: tl_chain_vals[symmetric])
    have rm: "rem (q_cmp q) x ?vs = (fst (scan_rem (q_cmp q) x (tl ?vs)), hd ?vs # snd (scan_rem (q_cmp q) x (tl ?vs)))"
      using vne hv lv body by (simp add: rem_def)
    have run: "queues_remove (Some q) x = Some (Inr (fst (scan_rem (q_cmp q) x (tl ?vs)), Some q'))"
      using hp hn tp tn body nx r(1) tv by (simp add: queues_remove_def node_at_def)
    have vals: "chain_vals (q_nodes q') as' = hd ?vs # snd (scan_rem (q_cmp q) x (tl ?vs))"
      using r(3) tv hv hn by (simp add: chain_vals_simps)
    show ?thesis unfolding rm using run r(2,4,5) vals tv by auto
  qed
qed

lemma find_loop_refine:
  "seg node_next h p as None \<Longrightarrow>
     find_loop h cmp x p = Some (Inr (lfind cmp x (chain_vals h as)))"
proof (induction as arbitrary: p)
  case Nil
  then show ?case by (subst find_loop.simps) (simp add: chain_vals_simps)
next
  case (Cons a as)
  then obtain n where n: "p = Some a" "h a = Some n" "seg node_next h (node_next n) as None"
    by (auto simp: seg_Cons_iff simp del: seg.simps)
  show ?case using n Cons.IH[OF n(3)]
    by (subst find_loop.simps) (simp add: chain_vals_simps)
qed

lemma queues_find_refine:
  "queues_inv q as \<Longrightarrow>
     queues_find (Some q) x = Some (Inr (lfind (q_cmp q) x (chain_vals (q_nodes q) as)))"
  using find_loop_refine[of "q_nodes q" "q_head q" as "q_cmp q" x]
  by (simp add: queues_find_def queues_inv_def chain_inv_def)

lemma map_r_loop_refine:
  assumes step: "\<And>v y. v \<in> set (chain_vals h as) \<Longrightarrow> I y \<Longrightarrow> app v y = Some (Inr (1, v, g v y)) \<and> I (g v y)"
  shows "seg node_next h p as None \<Longrightarrow> I y \<Longrightarrow>
     map_r_loop h app y p = Some (Inr (1, h, fold g (chain_vals h as) y)) \<and> I (fold g (chain_vals h as) y)"
  using step
proof (induction as arbitrary: p y)
  case Nil
  then show ?case by (subst map_r_loop.simps) (simp add: chain_vals_simps)
next
  case (Cons a as)
  from Cons.prems(1) obtain n where n: "p = Some a" "h a = Some n" "seg node_next h (node_next n) as None"
    by (auto simp: seg_Cons_iff simp del: seg.simps)
  have s: "app (node_x n) y = Some (Inr (1, node_x n, g (node_x n) y))" "I (g (node_x n) y)"
    using Cons.prems(3)[of "node_x n" y] Cons.prems(2) n by (auto simp: chain_vals_simps)
  have same: "h(a \<mapsto> n\<lparr>node_x := node_x n\<rparr>) = h" using n by (auto simp: fun_eq_iff)
  have ih: "map_r_loop h app (g (node_x n) y) (node_next n)
      = Some (Inr (1, h, fold g (chain_vals h as) (g (node_x n) y)))
      \<and> I (fold g (chain_vals h as) (g (node_x n) y))"
    using Cons.IH[OF n(3) s(2)] Cons.prems(3) by (simp add: chain_vals_simps)
  show ?case using n s same ih
    by (subst map_r_loop.simps) (simp add: chain_vals_simps)
qed

lemma fold_snoc_id: "fold (\<lambda>v acc. acc @ [v]) xs ys = ys @ xs"
  by (induction xs arbitrary: ys) simp_all

lemma queues_traverse_refine:
  assumes "queues_inv q as"
  shows "queues_traverse q = Some (Inr (chain_vals (q_nodes q) as))"
proof -
  have s: "seg node_next (q_nodes q) (q_head q) as None"
    using assms by (simp add: queues_inv_def chain_inv_def)
  have "map_r_loop (q_nodes q) collect [] (q_head q)
     = Some (Inr (1, q_nodes q, fold (\<lambda>v acc. acc @ [v]) (chain_vals (q_nodes q) as) [])) \<and> True"
    by (rule map_r_loop_refine[where I = "\<lambda>_. True", OF _ s]) (simp_all add: collect_def)
  then show ?thesis by (simp add: queues_traverse_def queues_map_r_def fold_snoc_id)
qed

lemma queues_dequeue_front_refine:
  assumes qinv: "queues_inv q as"
  shows "\<exists>q' . queues_dequeue_front q
          = Inr (if as = [] then None else Some (hd (chain_vals (q_nodes q) as)), q')
      \<and> queues_inv q' (tl as)
      \<and> chain_vals (q_nodes q') (tl as) = tl (chain_vals (q_nodes q) as)
      \<and> q_cmp q' = q_cmp q"
proof (cases as)
  case Nil
  note inv = queues_inv_chain[OF qinv]
  have "q_head q = None" using inv Nil by (auto simp: chain_inv_Nil)
  then have "queues_dequeue_front q = Inr (None, q)" by (simp add: queues_dequeue_front_def)
  then show ?thesis using qinv Nil by (intro exI[of _ q]) (simp add: chain_vals_simps)
next
  case (Cons a rest)
  note inv = queues_inv_chain[OF qinv]
  have hp: "q_head q = Some a" using chain_inv_hd inv Cons by fast
  obtain hn where hn: "q_nodes q a = Some hn" using chain_inv_node[OF inv, of a] Cons by auto
  have inv1: "chain_inv (q_nodes q) (q_head q) (q_tail q) (q_brk q) (a # rest)"
    using inv Cons by simp
  from chain_inv_remove_head[OF inv1 hn] obtain h1 where
    m: "(if node_next hn \<noteq> None then store_prev (q_nodes q) (node_next hn) None
         else Inr (q_nodes q)) = Inr h1"
       "node_next hn = (case rest of [] \<Rightarrow> None | c # cs \<Rightarrow> Some c)"
       "chain_inv (h1(a := None)) (node_next hn) (q_tail q) (q_brk q) rest"
       "chain_vals (h1(a := None)) rest = chain_vals (q_nodes q) rest"
    by blast
  let ?q = "(if node_next hn = None then q\<lparr>q_tail := None\<rparr> else q)
              \<lparr>q_head := node_next hn, q_nodes := h1(a := None), q_size := q_size q - 1\<rparr>"
  have run: "queues_dequeue_front q = Inr (Some (node_x hn), ?q)"
  proof (cases rest)
    case Nil
    then have "node_next hn = None" "h1 = q_nodes q" using m(1,2) by auto
    then show ?thesis using hp hn by (simp add: queues_dequeue_front_def node_at_def free_node_def)
  next
    case (Cons c cs)
    then have nx: "node_next hn = Some c" using m(2) by simp
    have ac: "a \<noteq> c" using chain_inv_parts(1)[OF inv1] Cons by auto
    obtain nc where nc: "q_nodes q c = Some nc" using chain_inv_node[OF inv1, of c] Cons by auto
    have "h1 = (q_nodes q)(c \<mapsto> nc\<lparr>node_prev := None\<rparr>)" using m(1) nx nc by (simp add: store_prev_def)
    then have "h1(a := None) = ((q_nodes q)(a := None))(c \<mapsto> nc\<lparr>node_prev := None\<rparr>)"
      using ac by (auto simp: fun_eq_iff)
    then show ?thesis using hp hn nx nc ac
      by (simp add: queues_dequeue_front_def node_at_def free_node_def store_prev_def)
  qed
  have "q_size q = of_nat (Suc (length rest))" using qinv Cons by (simp add: queues_inv_def)
  moreover have "node_next hn = None \<longleftrightarrow> rest = []" using m(2) by (cases rest) auto
  ultimately have inv': "queues_inv ?q rest"
    using m(3) by (auto simp: queues_inv_def chain_inv_Nil split: if_splits)
  have vals: "chain_vals (q_nodes ?q) rest = tl (chain_vals (q_nodes q) as)"
    using m(4) Cons by (simp add: chain_vals_simps)
  have hv: "hd (chain_vals (q_nodes q) as) = node_x hn" using Cons hn by (simp add: chain_vals_simps)
  have rest': "q_cmp ?q = q_cmp q" by simp
  show ?thesis using run inv' vals hv rest' Cons by (intro exI[of _ ?q]) simp
qed

lemma total_three_way: "total_cmp cmp \<Longrightarrow> three_way cmp"
  unfolding total_cmp_def by blast

lemma total_cases:
  assumes "total_cmp cmp"
  obtains (lt) "cmp x y = - 1" "cmp y x = 1" | (eq) "cmp x y = 0" "cmp y x = 0"
    | (gt) "cmp x y = 1" "cmp y x = - 1"
proof -
  have f: "cmp y x = - cmp x y" using assms unfolding total_cmp_def by blast
  have "cmp x y = - 1 \<or> cmp x y = 0 \<or> cmp x y = 1"
    using assms unfolding total_cmp_def three_way_def by blast
  then show thesis using f lt eq gt by auto
qed

lemma total_flip: "total_cmp cmp \<Longrightarrow> cmp y x = - cmp x y"
  unfolding total_cmp_def by blast

lemma total_trans: "total_cmp cmp \<Longrightarrow> cmp x y = - 1 \<Longrightarrow> cmp y z = - 1 \<Longrightarrow> cmp x z = - 1"
  unfolding total_cmp_def by blast

lemma total_eq_cong: "total_cmp cmp \<Longrightarrow> cmp x y = 0 \<Longrightarrow> cmp x z = cmp y z"
  unfolding total_cmp_def by blast

lemma total_eq_cong2: "total_cmp cmp \<Longrightarrow> cmp x y = 0 \<Longrightarrow> cmp z x = cmp z y"
  using total_eq_cong[of cmp x y z] total_flip[of cmp] by metis

lemma total_lt_iff: "total_cmp cmp \<Longrightarrow> cmp x y < 0 \<longleftrightarrow> cmp x y = - 1"
  by (rule total_cases[of cmp x y]) auto

lemma total_gt_trans: "total_cmp cmp \<Longrightarrow> cmp x y = 1 \<Longrightarrow> cmp y z = 1 \<Longrightarrow> cmp x z = 1"
  using total_trans[of cmp z y x] total_flip[of cmp] by (metis add.inverse_inverse)

lemma ascending_Cons:
  "total_cmp cmp \<Longrightarrow> ascending cmp (y # ys) \<longleftrightarrow> (\<forall>z \<in> set ys. cmp y z = - 1) \<and> ascending cmp ys"
  by (auto simp: ascending_def total_lt_iff)

lemma ascending_Nil [simp]: "ascending cmp []"
  by (simp add: ascending_def)

lemma ascending_append:
  "total_cmp cmp \<Longrightarrow> ascending cmp (xs @ ys) \<longleftrightarrow>
     ascending cmp xs \<and> ascending cmp ys \<and> (\<forall>a \<in> set xs. \<forall>b \<in> set ys. cmp a b = - 1)"
  by (auto simp: ascending_def sorted_wrt_append total_lt_iff)

lemma set_ins: "set (ins cmp x xs) \<subseteq> insert x (set xs)" "set xs \<subseteq> set (ins cmp x xs)"
  by (induction xs) auto

lemma ascending_ins:
  assumes t: "total_cmp cmp"
  shows "ascending cmp xs \<Longrightarrow> ascending cmp (ins cmp x xs)"
proof (induction xs)
  case Nil
  then show ?case by (simp add: ascending_def)
next
  case (Cons y ys)
  have a: "\<forall>z \<in> set ys. cmp y z = - 1" "ascending cmp ys"
    using Cons.prems ascending_Cons[OF t] by auto
  show ?case
  proof (rule total_cases[OF t, of x y])
    assume c: "cmp x y = - 1" "cmp y x = 1"
    have "\<forall>z \<in> set ys. cmp x z = - 1" using a(1) c(1) total_trans[OF t] by blast
    then show ?thesis using c a Cons.prems by (simp add: ascending_Cons[OF t])
  next
    assume "cmp x y = 0" "cmp y x = 0"
    then show ?thesis using Cons.prems by simp
  next
    assume c: "cmp x y = 1" "cmp y x = - 1"
    have "\<forall>z \<in> set (ins cmp x ys). cmp y z = - 1" using a(1) c(2) set_ins(1)[of cmp x ys] by auto
    then show ?thesis using c a Cons.IH by (simp add: ascending_Cons[OF t])
  qed
qed

lemma ins_dup:
  assumes t: "total_cmp cmp"
  shows "ascending cmp xs \<Longrightarrow> y \<in> set xs \<Longrightarrow> cmp x y = 0 \<Longrightarrow> ins cmp x xs = xs"
proof (induction xs)
  case Nil
  then show ?case by simp
next
  case (Cons z zs)
  have a: "\<forall>w \<in> set zs. cmp z w = - 1" "ascending cmp zs"
    using Cons.prems ascending_Cons[OF t] by auto
  show ?case
  proof (cases "y = z")
    case True
    then show ?thesis using Cons.prems by simp
  next
    case False
    then have yz: "y \<in> set zs" using Cons.prems by simp
    then have "cmp z y = - 1" using a by simp
    then have "cmp z x = - 1" using total_eq_cong2[OF t Cons.prems(3), of z] by simp
    then have "cmp x z = 1" using total_flip[OF t, of x z] by simp
    then show ?thesis using Cons.IH[OF a(2) yz Cons.prems(3)] by simp
  qed
qed

lemma ins_new:
  "\<forall>y \<in> set xs. cmp x y \<noteq> 0 \<Longrightarrow> set (ins cmp x xs) = insert x (set xs)
     \<and> length (ins cmp x xs) = Suc (length xs)"
  by (induction xs) auto

lemma ins_snoc_gt:
  assumes t: "total_cmp cmp"
  shows "ascending cmp (ys @ [l]) \<Longrightarrow> cmp x l = 1 \<Longrightarrow> ins cmp x (ys @ [l]) = ys @ [l, x]"
proof (induction ys)
  case Nil
  then show ?case by simp
next
  case (Cons y ys)
  have "cmp y l = - 1" "ascending cmp (ys @ [l])" using Cons.prems ascending_Cons[OF t] by auto
  moreover have "cmp l x = - 1" using total_flip[OF t, of x l] Cons.prems by simp
  ultimately have "cmp y x = - 1" "ascending cmp (ys @ [l])" using total_trans[OF t] by blast+
  then have "cmp x y = 1" using total_flip[OF t, of y x] by simp
  then show ?case using Cons by (simp add: \<open>ascending cmp (ys @ [l])\<close>)
qed

lemma scan_ins_eq:
  assumes tw: "three_way cmp"
  shows "rest \<noteq> [] \<Longrightarrow> cmp x (last rest) = - 1 \<Longrightarrow> scan_ins cmp x (y # rest) = y # ins cmp x rest"
proof (induction rest arbitrary: y)
  case Nil
  then show ?case by simp
next
  case (Cons z zs)
  show ?case
  proof (cases zs)
    case Nil
    then show ?thesis using Cons.prems by simp
  next
    case (Cons z' zs')
    then have "scan_ins cmp x (z # zs) = z # ins cmp x zs" using Cons.IH[of z] Cons.prems by simp
    then show ?thesis using three_wayD[OF tw, of x z] by auto
  qed
qed

lemma enq_eq_ins:
  assumes t: "total_cmp cmp" and a: "ascending cmp xs"
  shows "enq cmp x xs = ins cmp x xs"
proof (cases xs rule: rev_cases)
  case Nil
  then show ?thesis by (simp add: enq_def)
next
  case (snoc ys l)
  note tw = total_three_way[OF t]
  show ?thesis
  proof (rule total_cases[OF t, of x l])
    assume c: "cmp x l = 0" "cmp l x = 0"
    have "ins cmp x xs = xs" using ins_dup[OF t a, of l x] snoc c by simp
    then show ?thesis using c snoc by (simp add: enq_def)
  next
    assume c: "cmp x l = 1" "cmp l x = - 1"
    have "ins cmp x xs = xs @ [x]" using ins_snoc_gt[OF t, of ys l x] a snoc c by simp
    then show ?thesis using c snoc by (simp add: enq_def)
  next
    assume c: "cmp x l = - 1" "cmp l x = 1"
    have l: "last xs = l" "xs \<noteq> []" using snoc by simp_all
    obtain h rest where Cons: "xs = h # rest" using l(2) by (cases xs) auto
    have hx: "hd xs = h" using Cons by simp
    show ?thesis
    proof (rule total_cases[OF t, of x h])
      assume "cmp x h = - 1" "cmp h x = 1"
      then show ?thesis using c l hx unfolding enq_def by (simp add: Cons)
    next
      assume "cmp x h = 0" "cmp h x = 0"
      then show ?thesis using c l hx unfolding enq_def by (simp add: Cons)
    next
      assume d: "cmp x h = 1" "cmp h x = - 1"
      have rne: "rest \<noteq> []" using c d l Cons by auto
      then have "last rest = l" using l Cons by simp
      then have "scan_ins cmp x (h # rest) = h # ins cmp x rest"
        using scan_ins_eq[OF tw rne, of x h] c by simp
      then show ?thesis using c d l hx unfolding enq_def by (simp add: Cons)
    qed
  qed
qed

lemma ascending_tl: "ascending cmp xs \<Longrightarrow> ascending cmp (tl xs)"
  by (cases xs) (simp_all add: ascending_def)

lemma ascending_butlast: "ascending cmp xs \<Longrightarrow> ascending cmp (butlast xs)"
  by (cases xs rule: rev_cases) (simp_all add: ascending_def sorted_wrt_append)

lemma del_None:
  "fst (del cmp x xs) = None \<Longrightarrow> snd (del cmp x xs) = xs"
  by (induction xs) (auto split: if_splits)

lemma del_set: "set (snd (del cmp x xs)) \<subseteq> set xs"
  by (induction xs) auto

lemma ascending_del:
  assumes t: "total_cmp cmp"
  shows "ascending cmp xs \<Longrightarrow> ascending cmp (snd (del cmp x xs))"
proof (induction xs)
  case Nil
  then show ?case by simp
next
  case (Cons y ys)
  have a: "\<forall>z \<in> set ys. cmp y z = - 1" "ascending cmp ys"
    using Cons.prems ascending_Cons[OF t] by auto
  have "\<forall>z \<in> set (snd (del cmp x ys)). cmp y z = - 1" using a(1) del_set[of cmp x ys] by auto
  then show ?case using Cons a by (simp add: ascending_Cons[OF t])
qed

text \<open>what \<open>del\<close> returns on an ascending list\<close>
lemma del_Some:
  assumes t: "total_cmp cmp"
  shows "ascending cmp xs \<Longrightarrow> fst (del cmp x xs) = Some y \<Longrightarrow>
     y \<in> set xs \<and> cmp x y = 0 \<and> set (snd (del cmp x xs)) = set xs - {y}
     \<and> length xs = Suc (length (snd (del cmp x xs)))
     \<and> (\<forall>z \<in> set (snd (del cmp x xs)). cmp x z \<noteq> 0)"
proof (induction xs)
  case Nil
  then show ?case by simp
next
  case (Cons z zs)
  have a: "\<forall>w \<in> set zs. cmp z w = - 1" "ascending cmp zs"
    using Cons.prems ascending_Cons[OF t] by auto
  show ?case
  proof (rule total_cases[OF t, of x z])
    assume "cmp x z = - 1" "cmp z x = 1"
    then show ?thesis using Cons.prems by simp
  next
    assume c: "cmp x z = 0" "cmp z x = 0"
    then have yz: "y = z" using Cons.prems by simp
    have "\<forall>w \<in> set zs. cmp x w = - 1" using a(1) total_eq_cong[OF t c(1)] by simp
    then have "\<forall>w \<in> set zs. cmp x w \<noteq> 0" by auto
    moreover have "z \<notin> set zs" using a(1) total_eq_cong[OF t c(1), of z] c by auto
    ultimately show ?thesis using c yz by auto
  next
    assume c: "cmp x z = 1" "cmp z x = - 1"
    then have f: "fst (del cmp x zs) = Some y" using Cons.prems by simp
    note ih = Cons.IH[OF a(2) f]
    have "y \<noteq> z" using ih c by auto
    moreover have "z \<notin> set zs" using a(1) total_eq_cong[OF t, of z z z] total_flip[OF t, of z z] by force
    ultimately show ?thesis using ih c by auto
  qed
qed

lemma del_None_iff:
  assumes t: "total_cmp cmp"
  shows "ascending cmp xs \<Longrightarrow> fst (del cmp x xs) = None \<longleftrightarrow> (\<forall>y \<in> set xs. cmp x y \<noteq> 0)"
proof (induction xs)
  case Nil
  then show ?case by simp
next
  case (Cons z zs)
  have a: "\<forall>w \<in> set zs. cmp z w = - 1" "ascending cmp zs"
    using Cons.prems ascending_Cons[OF t] by auto
  show ?case
  proof (rule total_cases[OF t, of x z])
    assume c: "cmp x z = - 1" "cmp z x = 1"
    have "\<forall>w \<in> set zs. cmp x w = - 1" using a(1) c(1) total_trans[OF t] by blast
    then show ?thesis using c by auto
  next
    assume c: "cmp x z = 0" "cmp z x = 0"
    then show ?thesis by auto
  next
    assume c: "cmp x z = 1" "cmp z x = - 1"
    then show ?thesis using Cons.IH[OF a(2)] by auto
  qed
qed

lemma lfind_eq_del: "lfind cmp x xs = fst (del cmp x xs)"
  by (induction xs) auto

lemma scan_rem_eq:
  assumes tw: "three_way cmp"
  shows "rest \<noteq> [] \<Longrightarrow> cmp x (last rest) = - 1 \<Longrightarrow> scan_rem cmp x rest = del cmp x rest"
proof (induction rest)
  case Nil
  then show ?case by simp
next
  case (Cons z zs)
  show ?case
  proof (cases zs)
    case Nil
    then show ?thesis using Cons.prems by simp
  next
    case (Cons z' zs')
    then have "scan_rem cmp x zs = del cmp x zs" using Cons.IH Cons.prems by simp
    then show ?thesis using Cons three_wayD[OF tw, of x z] by auto
  qed
qed

lemma del_snoc_eq:
  assumes t: "total_cmp cmp"
  shows "ascending cmp (ys @ [l]) \<Longrightarrow> cmp x l = 0 \<Longrightarrow> del cmp x (ys @ [l]) = (Some l, ys)"
proof (induction ys)
  case Nil
  then show ?case by simp
next
  case (Cons y ys)
  have "cmp y l = - 1" "ascending cmp (ys @ [l])" using Cons.prems ascending_Cons[OF t] by auto
  then have "cmp x y = 1" "ascending cmp (ys @ [l])"
    using total_eq_cong2[OF t Cons.prems(2), of y] total_flip[OF t, of x y] by auto
  then show ?case using Cons by simp
qed

lemma del_snoc_gt:
  assumes t: "total_cmp cmp"
  shows "ascending cmp (ys @ [l]) \<Longrightarrow> cmp x l = 1 \<Longrightarrow> del cmp x (ys @ [l]) = (None, ys @ [l])"
proof (induction ys)
  case Nil
  then show ?case by simp
next
  case (Cons y ys)
  have "cmp y l = - 1" "ascending cmp (ys @ [l])" using Cons.prems ascending_Cons[OF t] by auto
  moreover have "cmp l x = - 1" using total_flip[OF t, of x l] Cons.prems by simp
  ultimately have "cmp y x = - 1" "ascending cmp (ys @ [l])" using total_trans[OF t] by blast+
  then have "cmp x y = 1" "ascending cmp (ys @ [l])" using total_flip[OF t, of y x] by auto
  then show ?case using Cons by simp
qed

lemma rem_eq_del:
  assumes t: "total_cmp cmp" and a: "ascending cmp xs"
  shows "rem cmp x xs = del cmp x xs"
proof (cases xs)
  case Nil
  then show ?thesis by (simp add: rem_def)
next
  case (Cons h rest)
  note tw = total_three_way[OF t]
  have hx: "hd xs = h" "xs \<noteq> []" "tl xs = rest" using Cons by simp_all
  obtain ys l where snoc: "xs = ys @ [l]" using hx(2) by (cases xs rule: rev_cases) auto
  have lx: "last xs = l" "butlast xs = ys" using snoc by simp_all
  show ?thesis
  proof (rule total_cases[OF t, of x h])
    assume "cmp x h = - 1" "cmp h x = 1"
    then show ?thesis using hx unfolding rem_def by (simp add: Cons)
  next
    assume "cmp x h = 0" "cmp h x = 0"
    then show ?thesis using hx unfolding rem_def by (simp add: Cons)
  next
    assume d: "cmp x h = 1" "cmp h x = - 1"
    show ?thesis
    proof (rule total_cases[OF t, of x l])
      assume c: "cmp x l = 0" "cmp l x = 0"
      have "del cmp x xs = (Some l, ys)" using del_snoc_eq[OF t, of ys l x] a snoc c by simp
      then show ?thesis using c d hx lx unfolding rem_def by simp
    next
      assume c: "cmp x l = 1" "cmp l x = - 1"
      have "del cmp x xs = (None, xs)" using del_snoc_gt[OF t, of ys l x] a snoc c by simp
      then show ?thesis using c d hx lx unfolding rem_def by simp
    next
      assume c: "cmp x l = - 1" "cmp l x = 1"
      have rne: "rest \<noteq> []" using c d lx Cons by auto
      then have "last rest = l" using lx Cons by simp
      then have "scan_rem cmp x rest = del cmp x rest" using scan_rem_eq[OF tw rne, of x] c by simp
      then show ?thesis using c d hx lx unfolding rem_def by (simp add: Cons)
    qed
  qed
qed

lemma queues_dequeue_back_refine:
  assumes qinv: "queues_inv q as"
  shows "(as = [] \<and> (queues_dequeue_back q = Inr (None, q) \<or> queues_dequeue_back q = Inl DanglingDeref))
     \<or> (as \<noteq> [] \<and> (\<exists>q'. queues_dequeue_back q = Inr (Some (last (chain_vals (q_nodes q) as)), q')
          \<and> queues_inv q' (butlast as)
          \<and> chain_vals (q_nodes q') (butlast as) = butlast (chain_vals (q_nodes q) as)
          \<and> q_cmp q' = q_cmp q))"
proof (cases as rule: rev_cases)
  case Nil
  note inv = queues_inv_chain[OF qinv]
  have e: "q_nodes q = Map.empty" using inv Nil by (auto simp: chain_inv_Nil)
  show ?thesis
  proof (cases "q_tail q")
    case None
    then show ?thesis using Nil by (simp add: queues_dequeue_back_def)
  next
    case (Some t)
    then show ?thesis using Nil e by (simp add: queues_dequeue_back_def node_at_def)
  qed
next
  case (snoc rest t)
  note inv = queues_inv_chain[OF qinv]
  have ne: "as \<noteq> []" using snoc by simp
  have tp: "q_tail q = Some t" using chain_inv_tl[OF inv ne] snoc by simp
  obtain tn where tn: "q_nodes q t = Some tn" using chain_inv_node[OF inv, of t] snoc by auto
  have inv1: "chain_inv (q_nodes q) (q_head q) (q_tail q) (q_brk q) (rest @ [t])"
    using inv snoc by simp
  from chain_inv_remove_tail[OF inv1 tn] obtain h1 where
    m: "(if node_prev tn \<noteq> None then store_next (q_nodes q) (node_prev tn) None
         else Inr (q_nodes q)) = Inr h1"
       "node_prev tn = (if rest = [] then None else Some (last rest))"
       "chain_inv (h1(t := None)) (if rest = [] then None else q_head q) (node_prev tn) (q_brk q) rest"
       "chain_vals (h1(t := None)) rest = chain_vals (q_nodes q) rest"
    by blast
  let ?q = "(if node_prev tn = None then q\<lparr>q_head := None\<rparr> else q)
              \<lparr>q_tail := node_prev tn, q_nodes := h1(t := None), q_size := q_size q - 1\<rparr>"
  have run: "queues_dequeue_back q = Inr (Some (node_x tn), ?q)"
  proof (cases "rest = []")
    case True
    then have "node_prev tn = None" "h1 = q_nodes q" using m(1,2) by auto
    then show ?thesis using tp tn by (simp add: queues_dequeue_back_def node_at_def free_node_def)
  next
    case False
    then have nx: "node_prev tn = Some (last rest)" using m(2) by simp
    have ac: "t \<noteq> last rest" using chain_inv_parts(1)[OF inv1] False by auto
    obtain nc where nc: "q_nodes q (last rest) = Some nc"
      using chain_inv_node[OF inv1, of "last rest"] False by auto
    have "h1 = (q_nodes q)(last rest \<mapsto> nc\<lparr>node_next := None\<rparr>)"
      using m(1) nx nc by (simp add: store_next_def)
    then have "h1(t := None) = ((q_nodes q)(t := None))(last rest \<mapsto> nc\<lparr>node_next := None\<rparr>)"
      using ac by (auto simp: fun_eq_iff)
    then show ?thesis using tp tn nx nc ac
      by (simp add: queues_dequeue_back_def node_at_def free_node_def store_next_def)
  qed
  have "q_size q = of_nat (Suc (length rest))" using qinv snoc by (simp add: queues_inv_def)
  moreover have "node_prev tn = None \<longleftrightarrow> rest = []" using m(2) by auto
  ultimately have inv': "queues_inv ?q rest"
    using m(3) by (auto simp: queues_inv_def chain_inv_Nil split: if_splits)
  have vals: "chain_vals (q_nodes ?q) rest = butlast (chain_vals (q_nodes q) as)"
    using m(4) snoc by (simp add: chain_vals_simps)
  have lv: "last (chain_vals (q_nodes q) as) = node_x tn" using snoc tn by (simp add: chain_vals_simps)
  have rest': "q_cmp ?q = q_cmp q" by simp
  have "\<exists>q'. queues_dequeue_back q = Inr (Some (last (chain_vals (q_nodes q) as)), q')
          \<and> queues_inv q' (butlast as)
          \<and> chain_vals (q_nodes q') (butlast as) = butlast (chain_vals (q_nodes q) as)
          \<and> q_cmp q' = q_cmp q"
    using run inv' vals lv rest' snoc by (intro exI[of _ ?q]) simp
  then show ?thesis using ne by blast
qed

lemma chain_ok_new: "chain_ok cmp (queues_new cmp)"
  by (auto simp: chain_ok_def queues_new_def queues_inv_def chain_inv_Nil intro!: exI[of _ "[]"]
      simp: chain_vals_simps)

lemma chain_ok_enqueu:
  assumes t: "total_cmp cmp" and ok: "chain_ok cmp q"
  shows "\<exists>q'. queues_enqueu q x = Some (Inr q') \<and> chain_ok cmp q'"
proof -
  obtain as where a: "q_cmp q = cmp" "queues_inv q as" "ascending cmp (chain_vals (q_nodes q) as)"
    using ok by (auto simp: chain_ok_def)
  have tw: "three_way (q_cmp q)" using t a(1) total_three_way by auto
  from queues_enqueu_refine[OF tw a(2), of x] obtain q' as' where
    r: "queues_enqueu q x = Some (Inr q')" "queues_inv q' as'"
       "chain_vals (q_nodes q') as' = enq (q_cmp q) x (chain_vals (q_nodes q) as)"
       "q_cmp q' = q_cmp q"
    by blast
  have "ascending cmp (chain_vals (q_nodes q') as')"
    using r(3) a enq_eq_ins[OF t a(3)] ascending_ins[OF t a(3)] by simp
  then show ?thesis using r a by (auto simp: chain_ok_def)
qed

lemma chain_ok_remove:
  assumes t: "total_cmp cmp" and ok: "chain_ok cmp q"
  shows "\<exists>r q'. queues_remove (Some q) x = Some (Inr (r, Some q')) \<and> chain_ok cmp q'"
proof -
  obtain as where a: "q_cmp q = cmp" "queues_inv q as" "ascending cmp (chain_vals (q_nodes q) as)"
    using ok by (auto simp: chain_ok_def)
  have tw: "three_way (q_cmp q)" using t a(1) total_three_way by auto
  from queues_remove_refine[OF tw a(2), of x] obtain q' as' where
    r: "queues_remove (Some q) x
         = Some (Inr (fst (rem (q_cmp q) x (chain_vals (q_nodes q) as)), Some q'))"
       "queues_inv q' as'"
       "chain_vals (q_nodes q') as' = snd (rem (q_cmp q) x (chain_vals (q_nodes q) as))"
       "q_cmp q' = q_cmp q"
    by blast
  have "ascending cmp (chain_vals (q_nodes q') as')"
    using r(3) a rem_eq_del[OF t a(3)] ascending_del[OF t a(3)] by simp
  then show ?thesis using r a by (auto simp: chain_ok_def)
qed

lemma chain_ok_dequeue_front:
  assumes ok: "chain_ok cmp q"
  shows "\<exists>r q'. queues_dequeue_front q = Inr (r, q') \<and> chain_ok cmp q'"
proof -
  obtain as where a: "q_cmp q = cmp" "queues_inv q as" "ascending cmp (chain_vals (q_nodes q) as)"
    using ok by (auto simp: chain_ok_def)
  from queues_dequeue_front_refine[OF a(2)] obtain q' where
    r: "queues_dequeue_front q
          = Inr (if as = [] then None else Some (hd (chain_vals (q_nodes q) as)), q')"
      "queues_inv q' (tl as)"
      "chain_vals (q_nodes q') (tl as) = tl (chain_vals (q_nodes q) as)"
      "q_cmp q' = q_cmp q"
    by blast
  have "ascending cmp (chain_vals (q_nodes q') (tl as))" using r(3) a(3) ascending_tl by auto
  then show ?thesis using r a by (auto simp: chain_ok_def)
qed

lemma chain_ok_dequeue_back:
  assumes ok: "chain_ok cmp q"
  shows "queues_dequeue_back q = Inl DanglingDeref
     \<or> (\<exists>r q'. queues_dequeue_back q = Inr (r, q') \<and> chain_ok cmp q')"
proof -
  obtain as where a: "q_cmp q = cmp" "queues_inv q as" "ascending cmp (chain_vals (q_nodes q) as)"
    using ok by (auto simp: chain_ok_def)
  from queues_dequeue_back_refine[OF a(2)] show ?thesis
  proof (elim disjE conjE exE)
    assume "queues_dequeue_back q = Inr (None, q)"
    then show ?thesis using ok by auto
  next
    assume "queues_dequeue_back q = Inl DanglingDeref"
    then show ?thesis by simp
  next
    fix q'
    assume r: "queues_dequeue_back q = Inr (Some (last (chain_vals (q_nodes q) as)), q')"
      "queues_inv q' (butlast as)"
      "chain_vals (q_nodes q') (butlast as) = butlast (chain_vals (q_nodes q) as)"
      "q_cmp q' = q_cmp q"
    have "ascending cmp (chain_vals (q_nodes q') (butlast as))"
      using r(3) a(3) ascending_butlast by auto
    then show ?thesis using r a by (auto simp: chain_ok_def)
  qed
qed

lemma chain_ok_apply_op:
  assumes t: "total_cmp cmp" and ok: "chain_ok cmp q"
  shows "(apply_op q c = Some (Inl DanglingDeref) \<and> c = DequeueBack)
     \<or> (\<exists>q'. apply_op q c = Some (Inr q') \<and> chain_ok cmp q')"
proof (cases c)
  case (Enqueu x)
  then show ?thesis using chain_ok_enqueu[OF t ok, of x] by auto
next
  case (Remove x)
  then show ?thesis using chain_ok_remove[OF t ok, of x] by auto
next
  case DequeueFront
  then show ?thesis using chain_ok_dequeue_front[OF ok] by auto
next
  case DequeueBack
  then show ?thesis using chain_ok_dequeue_back[OF ok] by auto
qed

lemma chain_ok_run_ops:
  assumes t: "total_cmp cmp"
  shows "chain_ok cmp q \<Longrightarrow>
     (run_ops q cs = Some (Inl DanglingDeref) \<and> DequeueBack \<in> set cs)
     \<or> (\<exists>q'. run_ops q cs = Some (Inr q') \<and> chain_ok cmp q')"
proof (induction cs arbitrary: q)
  case Nil
  then show ?case by simp
next
  case (Cons c cs)
  from chain_ok_apply_op[OF t Cons.prems, of c] show ?case
  proof (elim disjE conjE exE)
    assume "apply_op q c = Some (Inl DanglingDeref)" "c = DequeueBack"
    then show ?thesis by simp
  next
    fix q'
    assume a: "apply_op q c = Some (Inr q')" "chain_ok cmp q'"
    from Cons.IH[OF a(2)] show ?thesis using a(1) by auto
  qed
qed

lemma chain_ok_traverse:
  "chain_ok cmp q \<Longrightarrow> \<exists>xs. queues_traverse q = Some (Inr xs) \<and> ascending cmp xs"
  using queues_traverse_refine by (auto simp: chain_ok_def)

section \<open>Chain: ascending order\<close>

text \<open>
  C4.  For every comparator that is a total order with results \<open>-1\<close>, \<open>0\<close>, \<open>1\<close>, and
  every sequence of enqueue, keyed remove, dequeue-front and dequeue-back calls on a fresh
  chain: the run returns, and traversing the resulting chain from head to tail yields an
  ascending sequence, every entry comparing below every later entry (so the sequence has
  no duplicates and \<open>compare (a, b) < 0\<close> for adjacent \<open>a\<close>, \<open>b\<close>).  The one exception
  is a run that contains \<open>queues_dequeue_back\<close>: that call can read a freed node (see
  C10), and then the run has no resulting chain.  Runs of inserts and keyed removals, of
  which the claim speaks, always return.
\<close>

theorem chain_strictly_ascending:
  assumes "total_cmp cmp"
  shows "(run_ops (queues_new cmp) cs = Some (Inl DanglingDeref) \<and> DequeueBack \<in> set cs)
     \<or> (\<exists>q xs. run_ops (queues_new cmp) cs = Some (Inr q)
           \<and> queues_traverse q = Some (Inr xs) \<and> ascending cmp xs)"
  using chain_ok_run_ops[OF assms chain_ok_new, of cs] chain_ok_traverse[of cmp] by blast

theorem chain_strictly_ascending_witness:
  "total_cmp int_cmp
   \<and> (\<exists>q xs. run_ops (queues_new int_cmp)
                [Enqueu 5, Enqueu 1, Enqueu 3, Enqueu 3, Remove 1, Enqueu 4, DequeueFront] = Some (Inr q)
         \<and> queues_traverse q = Some (Inr xs) \<and> ascending int_cmp xs)"
  using total_cmp_int
    chain_strictly_ascending[OF total_cmp_int,
      of "[Enqueu 5, Enqueu 1, Enqueu 3, Enqueu 3, Remove 1, Enqueu 4, DequeueFront]"]
  by simp


lemma queues_enqueu_dup:
  assumes t: "total_cmp (q_cmp q)" and qinv: "queues_inv q as"
    and asc: "ascending (q_cmp q) (chain_vals (q_nodes q) as)"
    and mem: "y \<in> set (chain_vals (q_nodes q) as)" and eq: "q_cmp q x y = 0"
  shows "queues_enqueu q x = Some (Inr q)"
proof -
  from queues_enqueu_refine[OF total_three_way[OF t] qinv, of x] obtain q' as' where
    r: "queues_enqueu q x = Some (Inr q')"
       "chain_vals (q_nodes q') as' = enq (q_cmp q) x (chain_vals (q_nodes q) as)"
       "q' = q \<or> length as' = Suc (length as)"
    by blast
  have "enq (q_cmp q) x (chain_vals (q_nodes q) as) = chain_vals (q_nodes q) as"
    using enq_eq_ins[OF t asc] ins_dup[OF t asc mem eq] by simp
  then have "length as' = length as" using r(2) length_chain_vals by metis
  then show ?thesis using r by auto
qed

lemma denqueu_body_dup:
  "chain_inv (dq_nodes d) (dq_head d) (dq_tail d) (dq_brk d) (pre @ a # r1 @ b # r2) \<Longrightarrow>
   \<forall>c \<in> set r1. dq_cmp d v (node_x (the (dq_nodes d c))) = 1 \<Longrightarrow>
   dq_cmp d v (node_x (the (dq_nodes d b))) = 0 \<Longrightarrow>
   denqueu_body d v (Some a) = Some (Inr d)"
proof (induction r1 arbitrary: pre a)
  case Nil
  then have inv: "chain_inv (dq_nodes d) (dq_head d) (dq_tail d) (dq_brk d) (pre @ a # b # r2)" by simp
  obtain na nb where n: "dq_nodes d a = Some na" "dq_nodes d b = Some nb" "node_next na = Some b"
    using chain_inv_mid[OF inv] by auto
  show ?case using n Nil.prems(3) by (subst denqueu_body.simps) (simp add: node_at_def)
next
  case (Cons c r1)
  then have inv: "chain_inv (dq_nodes d) (dq_head d) (dq_tail d) (dq_brk d) (pre @ a # c # (r1 @ b # r2))"
    by simp
  obtain na nc where n: "dq_nodes d a = Some na" "dq_nodes d c = Some nc" "node_next na = Some c"
    using chain_inv_mid[OF inv] by auto
  have gt: "dq_cmp d v (node_x nc) = 1" using Cons.prems(2) n by simp
  have step: "denqueu_body d v (Some a) = denqueu_body d v (Some c)"
    using n gt by (subst denqueu_body.simps) (simp add: node_at_def)
  have "chain_inv (dq_nodes d) (dq_head d) (dq_tail d) (dq_brk d) ((pre @ [a]) @ c # r1 @ b # r2)"
    using Cons.prems(1) by simp
  from Cons.IH[OF this] show ?case using step Cons.prems by simp
qed

lemma dqueues_enqueu_dup:
  assumes t: "total_cmp (dq_cmp d)" and dinv: "dqueues_inv d as"
    and asc: "ascending (dq_cmp d) (chain_vals (dq_nodes d) as)"
    and mem: "y \<in> set (chain_vals (dq_nodes d) as)" and eq: "dq_cmp d v y = 0"
  shows "dqueues_enqueu d v = Some (Inr d)"
proof -
  let ?h = "dq_nodes d" and ?cmp = "dq_cmp d"
  let ?val = "\<lambda>a. node_x (the (?h a))"
  have inv: "chain_inv ?h (dq_head d) (dq_tail d) (dq_brk d) as" using dinv by (simp add: dqueues_inv_def)
  obtain b where b: "b \<in> set as" "y = ?val b" using mem by (auto simp: chain_vals_def)
  then obtain p1 p2 where as: "as = p1 @ b # p2" by (meson split_list)
  have ne: "as \<noteq> []" using as by simp
  have hp: "dq_head d = Some (hd as)" using chain_inv_parts(2)[OF inv] ne by (cases as) auto
  have tp: "dq_tail d = Some (last as)" using chain_inv_tl[OF inv ne] .
  obtain tn where tn: "?h (last as) = Some tn" using chain_inv_node[OF inv, of "last as"] ne by auto
  obtain hn where hn: "?h (hd as) = Some hn" using chain_inv_node[OF inv, of "hd as"] ne by auto
  have vals: "chain_vals ?h as = chain_vals ?h p1 @ y # chain_vals ?h p2"
    using as b by (simp add: chain_vals_simps)
  have lo: "\<forall>c \<in> set p1. ?cmp (?val c) y = - 1" and hi: "\<forall>c \<in> set p2. ?cmp y (?val c) = - 1"
    using asc vals by (auto simp: ascending_append[OF t] ascending_Cons[OF t] chain_vals_def)
  have lo': "\<forall>c \<in> set p1. ?cmp v (?val c) = 1"
  proof
    fix c assume "c \<in> set p1"
    then have "?cmp (?val c) v = - 1" using lo total_eq_cong2[OF t eq, of "?val c"] by simp
    then show "?cmp v (?val c) = 1" using total_flip[OF t, of "?val c" v] by simp
  qed
  have hi': "\<forall>c \<in> set p2. ?cmp v (?val c) = - 1"
    using hi total_eq_cong[OF t eq] by simp
  show ?thesis
  proof (cases "p2 = []")
    case True
    then have "last as = b" using as by simp
    then have "?cmp v (node_x tn) = 0" using tn b eq by simp
    then show ?thesis using hp tp tn by (simp add: dqueues_enqueu_def node_at_def)
  next
    case False
    then have "last as \<in> set p2" using as by (metis last_appendR last_in_set list.distinct(1) last_ConsR)
    then have c: "?cmp v (node_x tn) = - 1" using hi' tn by auto
    show ?thesis
    proof (cases p1)
      case Nil
      then have "hd as = b" using as by simp
      then have "?cmp v (node_x hn) = 0" using hn b eq by simp
      then show ?thesis using hp tp tn hn c by (simp add: dqueues_enqueu_def node_at_def)
    next
      case (Cons h0 r1)
      then have h0: "hd as = h0" using as by simp
      then have dd: "?cmp v (node_x hn) = 1" using lo' hn Cons by auto
      have run: "dqueues_enqueu d v = denqueu_body d v (Some h0)"
        using hp tp tn hn c dd h0 by (simp add: dqueues_enqueu_def node_at_def)
      have inv1: "chain_inv ?h (dq_head d) (dq_tail d) (dq_brk d) ([] @ h0 # r1 @ b # p2)"
        using inv as Cons by simp
      have "\<forall>c \<in> set r1. ?cmp v (?val c) = 1" using lo' Cons by simp
      from denqueu_body_dup[OF inv1 this] show ?thesis using run eq b by simp
    qed
  qed
qed

section \<open>Chain: inserting a duplicate\<close>

text \<open>
  C3.  For every well-formed ascending chain, shallow or deep, under a comparator that
  is a total order with results \<open>-1\<close>, \<open>0\<close>, \<open>1\<close> only, and every value that compares
  equal to a member: the enqueue call returns and leaves the chain exactly as it was
  (same nodes, same links, same count), so nothing is added or replaced and the member
  is retained.  The call returns nothing besides the chain, so the caller gets no
  indication.  The restriction of the comparator's results is needed: the scans of
  \<open>queues_enqueu\<close> have no case for any other result.
\<close>

theorem enqueu_duplicate_noop:
  "(total_cmp (q_cmp q) \<and> queues_inv q as \<and> ascending (q_cmp q) (chain_vals (q_nodes q) as)
      \<and> y \<in> set (chain_vals (q_nodes q) as) \<and> q_cmp q x y = 0
     \<longrightarrow> queues_enqueu q x = Some (Inr q))
   \<and> (total_cmp (dq_cmp d) \<and> dqueues_inv d bs \<and> ascending (dq_cmp d) (chain_vals (dq_nodes d) bs)
      \<and> w \<in> set (chain_vals (dq_nodes d) bs) \<and> dq_cmp d v w = 0
     \<longrightarrow> dqueues_enqueu d v = Some (Inr d))"
proof (intro conjI impI)
  assume "total_cmp (q_cmp q) \<and> queues_inv q as \<and> ascending (q_cmp q) (chain_vals (q_nodes q) as)
      \<and> y \<in> set (chain_vals (q_nodes q) as) \<and> q_cmp q x y = 0"
  then show "queues_enqueu q x = Some (Inr q)"
    by (elim conjE) (rule queues_enqueu_dup)
next
  assume "total_cmp (dq_cmp d) \<and> dqueues_inv d bs \<and> ascending (dq_cmp d) (chain_vals (dq_nodes d) bs)
      \<and> w \<in> set (chain_vals (dq_nodes d) bs) \<and> dq_cmp d v w = 0"
  then show "dqueues_enqueu d v = Some (Inr d)"
    by (elim conjE) (rule dqueues_enqueu_dup)
qed

theorem enqueu_duplicate_noop_witness:
  "(total_cmp (q_cmp q13) \<and> queues_inv q13 [0, 1]
      \<and> ascending (q_cmp q13) (chain_vals (q_nodes q13) [0, 1])
      \<and> 3 \<in> set (chain_vals (q_nodes q13) [0, 1]) \<and> q_cmp q13 3 3 = 0)
   \<and> queues_enqueu q13 3 = Some (Inr q13)
   \<and> (total_cmp (dq_cmp d13) \<and> dqueues_inv d13 [0, 1]
      \<and> ascending (dq_cmp d13) (chain_vals (dq_nodes d13) [0, 1])
      \<and> [3, 8] \<in> set (chain_vals (dq_nodes d13) [0, 1]) \<and> dq_cmp d13 [3, 9] [3, 8] = 0)
   \<and> dqueues_enqueu d13 [3, 9] = Some (Inr d13)"
proof -
  have qc: "q_cmp q13 = int_cmp" by (simp add: q13_def)
  have dc: "dq_cmp d13 = bytes_cmp" by (simp add: d13_def)
  have a: "total_cmp (q_cmp q13) \<and> queues_inv q13 [0, 1]
      \<and> ascending (q_cmp q13) (chain_vals (q_nodes q13) [0, 1])
      \<and> 3 \<in> set (chain_vals (q_nodes q13) [0, 1]) \<and> q_cmp q13 3 3 = 0"
    unfolding q13_vals qc using total_cmp_int q13_inv by (simp add: ascending_def int_cmp_def)
  have b: "total_cmp (dq_cmp d13) \<and> dqueues_inv d13 [0, 1]
      \<and> ascending (dq_cmp d13) (chain_vals (dq_nodes d13) [0, 1])
      \<and> [3, 8] \<in> set (chain_vals (dq_nodes d13) [0, 1]) \<and> dq_cmp d13 [3, 9] [3, 8] = 0"
    unfolding d13_vals dc using total_cmp_bytes d13_inv
    by (simp add: ascending_def int_cmp_def bytes_cmp_def bytes_key_def)
  show ?thesis
    using a b enqueu_duplicate_noop[of q13 "[0, 1]" 3 3 d13 "[0, 1]" "[3, 8]" "[3, 9]"]
    by blast
qed


section \<open>Directory: construction\<close>

lemma length_primes: "length primes = 46"
  by (simp add: primes_def)

lemma sorted_primes: "sorted primes"
  unfolding primes_def by (simp only: sorted2 sorted1 simp_thms) simp

lemma primes_44: "primes ! 44 = 770793589"
  by (simp add: primes_def)

lemma primes_45: "primes ! 45 = - 1"
  by (simp add: primes_def)

lemma get_cap_index_loop_spec:
  "i \<le> NPRIMES \<Longrightarrow>
     i \<le> get_cap_index_loop n i \<and> get_cap_index_loop n i \<le> NPRIMES
     \<and> (\<forall>j. i \<le> j \<and> j < get_cap_index_loop n i \<longrightarrow> primes ! j \<le> n)
     \<and> (get_cap_index_loop n i < NPRIMES \<longrightarrow> n < primes ! get_cap_index_loop n i)"
proof (induction n i rule: get_cap_index_loop.induct)
  case (1 n i)
  show ?case
  proof (cases "i < NPRIMES \<and> primes ! i \<le> n")
    case True
    then have ih: "Suc i \<le> get_cap_index_loop n (Suc i) \<and> get_cap_index_loop n (Suc i) \<le> NPRIMES
     \<and> (\<forall>j. Suc i \<le> j \<and> j < get_cap_index_loop n (Suc i) \<longrightarrow> primes ! j \<le> n)
     \<and> (get_cap_index_loop n (Suc i) < NPRIMES \<longrightarrow> n < primes ! get_cap_index_loop n (Suc i))"
      using "1.IH" by simp
    have e: "get_cap_index_loop n i = get_cap_index_loop n (Suc i)"
      using True by (subst get_cap_index_loop.simps) simp
    have "\<forall>j. i \<le> j \<and> j < get_cap_index_loop n (Suc i) \<longrightarrow> primes ! j \<le> n"
    proof (intro allI impI)
      fix j assume j: "i \<le> j \<and> j < get_cap_index_loop n (Suc i)"
      show "primes ! j \<le> n"
      proof (cases "j = i")
        case True
        then show ?thesis using \<open>i < NPRIMES \<and> primes ! i \<le> n\<close> by simp
      next
        case False
        then show ?thesis using j ih by auto
      qed
    qed
    then show ?thesis unfolding e using ih by auto
  next
    case False
    have e: "get_cap_index_loop n i = i"
      by (subst get_cap_index_loop.simps) (use False in auto)
    show ?thesis unfolding e using False "1.prems" by (auto simp: not_le)
  qed
qed

lemma get_cap_index_spec:
  "get_cap_index n \<le> 45
     \<and> (\<forall>j < get_cap_index n. primes ! j \<le> n)
     \<and> (get_cap_index n < 45 \<longrightarrow> n < primes ! get_cap_index n)"
  using get_cap_index_loop_spec[of 0 n] by (simp add: get_cap_index_def NPRIMES_def)

lemma get_cap_index_small:
  assumes "n < 770793589"
  shows "get_cap_index n < 45"
proof (rule ccontr)
  assume "\<not> get_cap_index n < 45"
  then have "get_cap_index n = 45" using get_cap_index_spec[of n] by simp
  then have "primes ! 44 \<le> n" using get_cap_index_spec[of n] by simp
  then show False using assms by (simp add: primes_44)
qed

lemma get_cap_index_large:
  assumes "770793589 \<le> n"
  shows "get_cap_index n = 45"
proof (rule ccontr)
  assume "get_cap_index n \<noteq> 45"
  then have lt: "get_cap_index n < 45" using get_cap_index_spec[of n] by simp
  then have "n < primes ! get_cap_index n" using get_cap_index_spec[of n] by simp
  moreover have "primes ! get_cap_index n \<le> primes ! 44"
    using sorted_nth_mono[OF sorted_primes, of "get_cap_index n" 44] lt by (simp add: length_primes)
  ultimately show False using assms by (simp add: primes_44)
qed

lemma primes_least:
  assumes "i < 45" "n < primes ! i" "\<forall>j < i. primes ! j \<le> n" "p \<in> set primes" "n < p"
  shows "primes ! i \<le> p"
proof -
  obtain j where j: "j < length primes" "p = primes ! j" using assms(4) by (auto simp: in_set_conv_nth)
  have "\<not> j < i" using assms(3,5) j by (auto simp: not_less)
  then show ?thesis using sorted_nth_mono[OF sorted_primes, of i j] j by simp
qed

lemma primes_small_bound:
  assumes "i < 45"
  shows "unat (primes ! i) \<le> 770793589"
proof -
  have "primes ! i \<le> primes ! 44"
    using sorted_nth_mono[OF sorted_primes, of i 44] assms by (simp add: length_primes)
  then have "unat (primes ! i) \<le> unat (770793589 :: size_t)"
    by (simp add: primes_44 word_le_nat_alt)
  then show ?thesis by simp
qed

text \<open>
  C8, as amended.  For every expected count \<open>n\<close> below the last ladder prime
  \<open>770793589\<close>, construction selects as capacity the smallest member of the ladder
  strictly greater than \<open>n\<close> and allocates a chain array of that length with every slot
  null.  From \<open>n = 770793589\<close> on the capacity index clamps to the terminal \<open>SIZE_MAX\<close>
  sentinel, and no chain array is obtained: \<open>SIZE_MAX\<close> handles of eight bytes do not
  fit \<open>size_t\<close>, so \<open>calloc\<close> returns \<open>NULL\<close>, which \<open>hashtabs_new\<close> stores unchecked.
\<close>
theorem hashtabs_new_capacity:
  "\<exists>t. hashtabs_new cmp hash n = Inr t \<and> t_cap_index t = get_cap_index n
      \<and> t_size t = 0 \<and> t_load t = 0
      \<and> (n < 770793589 \<longrightarrow>
           (\<exists>cap. hashtabs_capacity t = Inr cap \<and> cap \<in> set primes \<and> n < cap
              \<and> (\<forall>p \<in> set primes. n < p \<longrightarrow> cap \<le> p)
              \<and> t_A t = Some (replicate (unat cap) None)))
      \<and> (770793589 \<le> n \<longrightarrow> hashtabs_capacity t = Inr (- 1) \<and> t_A t = None)"
proof -
  let ?i = "get_cap_index n"
  let ?t = "\<lparr>t_size = 0, t_load = 0, t_cap_index = ?i, t_cmp = cmp, t_hash = hash,
              t_A = calloc_chains (primes ! ?i)\<rparr>"
  have i: "?i < length primes" using get_cap_index_spec[of n] by (simp add: length_primes)
  have new: "hashtabs_new cmp hash n = Inr ?t" using i by (simp add: hashtabs_new_def primes_at_def)
  have cap: "hashtabs_capacity ?t = Inr (primes ! ?i)" using i by (simp add: hashtabs_capacity_def primes_at_def)
  have small: "n < 770793589 \<longrightarrow>
           (\<exists>cap. hashtabs_capacity ?t = Inr cap \<and> cap \<in> set primes \<and> n < cap
              \<and> (\<forall>p \<in> set primes. n < p \<longrightarrow> cap \<le> p)
              \<and> t_A ?t = Some (replicate (unat cap) None))"
  proof
    assume n: "n < 770793589"
    have lt: "?i < 45" using get_cap_index_small[OF n] .
    have a: "n < primes ! ?i" "\<forall>j < ?i. primes ! j \<le> n" using get_cap_index_spec[of n] lt by auto
    have m: "primes ! ?i \<in> set primes" using i by simp
    have l: "\<forall>p \<in> set primes. n < p \<longrightarrow> primes ! ?i \<le> p" using primes_least[OF lt a] by blast
    have "unat (primes ! ?i) * 8 < 2 ^ 64" using primes_small_bound[OF lt] by simp
    then have "t_A ?t = Some (replicate (unat (primes ! ?i)) None)" by (simp add: calloc_chains_def)
    then show "\<exists>cap. hashtabs_capacity ?t = Inr cap \<and> cap \<in> set primes \<and> n < cap
              \<and> (\<forall>p \<in> set primes. n < p \<longrightarrow> cap \<le> p)
              \<and> t_A ?t = Some (replicate (unat cap) None)"
      using cap m a(1) l by blast
  qed
  have large: "770793589 \<le> n \<longrightarrow> hashtabs_capacity ?t = Inr (- 1) \<and> t_A ?t = None"
  proof
    assume n: "770793589 \<le> n"
    have e: "?i = 45" using get_cap_index_large[OF n] .
    show "hashtabs_capacity ?t = Inr (- 1) \<and> t_A ?t = None"
      using cap e by (simp add: primes_45 calloc_chains_def unat_size_max)
  qed
  have f: "t_cap_index ?t = ?i \<and> t_size ?t = 0 \<and> t_load ?t = 0" by simp
  show ?thesis using new f small large by blast
qed

lemma get_cap_index_sentinel: "get_cap_index 770793589 = 45"
  by (rule get_cap_index_large) simp

text \<open>
  C8 as stated (every \<open>n\<close>, an all-null array of the selected length) fails at
  \<open>n = 770793589\<close>: the directory is returned with a null chain array.
\<close>
theorem hashtabs_new_sentinel_no_array:
  "hashtabs_new int_cmp int_hash 770793589
     = Inr \<lparr>t_size = 0, t_load = 0, t_cap_index = 45, t_cmp = int_cmp, t_hash = int_hash,
            t_A = None\<rparr>"
  by (simp add: hashtabs_new_def get_cap_index_sentinel primes_at_def length_primes primes_45
      calloc_chains_def unat_size_max)

theorem hashtabs_new_capacity_witness:
  "(5 :: size_t) < 770793589
   \<and> (\<exists>t cap. hashtabs_new int_cmp int_hash 5 = Inr t \<and> hashtabs_capacity t = Inr cap
        \<and> cap \<in> set primes \<and> 5 < cap \<and> (\<forall>p \<in> set primes. 5 < p \<longrightarrow> cap \<le> p)
        \<and> t_A t = Some (replicate (unat cap) None))
   \<and> (770793589 :: size_t) \<le> 770793589
   \<and> (\<exists>t. hashtabs_new int_cmp int_hash 770793589 = Inr t
        \<and> hashtabs_capacity t = Inr (- 1) \<and> t_A t = None)"
proof -
  have a: "(5 :: size_t) < 770793589" and b: "(770793589 :: size_t) \<le> 770793589" by simp_all
  show ?thesis
    using a b hashtabs_new_capacity[of int_cmp int_hash 5]
      hashtabs_new_capacity[of int_cmp int_hash 770793589]
    by blast
qed


section \<open>Directory: the load factor\<close>

lemmas dir_eval = dir_run_def observe_def hashtabs_new_5 eval_defs hashtabs_rehash_def
  hashtabs_rehash_loop.simps queues_map_r_def map_r_loop.simps rehash_cb_def
  enqueu_body.simps[of _ _ "Some a" for a]

lemma lf1: "observe hashtabs_loadfactor (dir_run int_cmp int_hash 5 [Insert 0, Insert 11]) = Some (Inr 2)"
  by (simp add: dir_eval)

lemma lf2: "observe hashtabs_loadfactor (dir_run int_cmp int_hash 5 [Insert 0, Insert 11, Insert 1]) = Some (Inr 1)"
  by (simp add: dir_eval)

lemma lf3: "observe hashtabs_loadfactor (dir_run int_cmp int_hash 5 [Insert 0, Insert 34]) = Some (Inr 1)"
  by (simp add: dir_eval)

lemma gci11: "get_cap_index 11 = 1"
  by (simp add: get_cap_index_def get_cap_index_loop.simps primes_def NPRIMES_def)

lemma hashtabs_new_11:
  "hashtabs_new cmp hash 11 = Inr \<lparr>t_size = 0, t_load = 0, t_cap_index = 1,
      t_cmp = cmp, t_hash = hash, t_A = Some (replicate 17 None)\<rparr>"
  by (simp add: hashtabs_new_def gci11 primes_at_def primes_def calloc_chains_def)

lemma lf4: "observe hashtabs_loadfactor (dir_run int_cmp int_hash 5 [Insert 0, Insert 34, Rehash]) = Some (Inr 2)"
  by (simp add: dir_eval hashtabs_new_11)

lemma word_div_succ_mono:
  fixes s l :: size_t
  assumes "s \<noteq> - 1"
  shows "s div l \<le> (s + 1) div l"
proof -
  have "1 + s \<noteq> 0" using assms by (metis add.commute add_eq_0_iff)
  then have "unat (s + 1) = Suc (unat s)" using unatSuc[of s] by (simp add: add.commute)
  then show ?thesis by (simp add: word_le_nat_alt unat_div div_le_mono)
qed

text \<open>
  C9, as amended.  The load factor is \<open>size / load\<close>, truncating, and \<open>0\<close> when \<open>load\<close>
  is \<open>0\<close>.  At fixed capacity it does not decrease across an insert that lands in a slot
  whose chain already exists (the size counter not being at \<open>SIZE_MAX\<close>).  An insert that
  allocates a new chain can lower it, and after a rehash it need not be smaller: it can
  stay equal or grow.
\<close>
theorem loadfactor_insert_existing_chain:
  assumes ins: "hashtabs_insert t x = Some (Inr t')"
    and cap: "primes_at (t_cap_index t) = Inr cap" and arr: "t_A t = Some arr"
    and slot: "arr ! unat (t_hash t x mod cap) \<noteq> None"
    and nowrap: "t_size t \<noteq> - 1"
  shows "hashtabs_loadfactor t \<le> hashtabs_loadfactor t'"
proof -
  obtain q0 where q0: "arr ! unat (t_hash t x mod cap) = Some q0" using slot by auto
  have "t_load t' = t_load t \<and> t_size t' = t_size t + 1"
    using ins cap arr q0
    by (auto simp: hashtabs_insert_def Let_def split: if_splits option.splits sum.splits)
  then show ?thesis using word_div_succ_mono[OF nowrap] by (simp add: hashtabs_loadfactor_def)
qed

lemma dir_one_insert:
  "\<exists>t'. hashtabs_insert dir_one 11 = Some (Inr t') \<and> hashtabs_loadfactor t' = 2"
  by (simp add: dir_one_def eval_defs)

theorem loadfactor_insert_existing_chain_witness:
  "\<exists>t'. hashtabs_insert dir_one 11 = Some (Inr t')
      \<and> primes_at (t_cap_index dir_one) = Inr 11
      \<and> (\<exists>arr. t_A dir_one = Some arr \<and> arr ! unat (t_hash dir_one 11 mod 11) \<noteq> None)
      \<and> t_size dir_one \<noteq> - 1
      \<and> hashtabs_loadfactor dir_one \<le> hashtabs_loadfactor t'
      \<and> hashtabs_loadfactor dir_one = 1 \<and> hashtabs_loadfactor t' = 2"
proof -
  obtain t' where t': "hashtabs_insert dir_one 11 = Some (Inr t')" "hashtabs_loadfactor t' = 2"
    using dir_one_insert by blast
  have cap: "primes_at (t_cap_index dir_one) = Inr 11"
    by (simp add: dir_one_def primes_at_def primes_def)
  obtain arr where arr: "t_A dir_one = Some arr" "arr ! unat (t_hash dir_one 11 mod 11) \<noteq> None"
    by (simp add: dir_one_def int_hash_def)
  have nw: "t_size dir_one \<noteq> - 1" by (simp add: dir_one_def)
  have lf: "hashtabs_loadfactor dir_one = 1" by (simp add: dir_one_def hashtabs_loadfactor_def)
  show ?thesis
    using loadfactor_insert_existing_chain[OF t'(1) cap arr nw] t' cap arr nw lf by blast
qed

text \<open>
  C9 as stated fails.  In a directory of capacity 11 with identity hash, the entries
  \<open>0\<close> and \<open>11\<close> share a chain (load factor \<open>2\<close>); inserting \<open>1\<close> allocates a second
  chain and the load factor drops to \<open>1\<close>.  The entries \<open>0\<close> and \<open>34\<close> lie in two
  chains (load factor \<open>1\<close>); after the rehash to capacity 17 they share a chain and the
  load factor is \<open>2\<close>.
\<close>
theorem loadfactor_not_monotone:
  "observe hashtabs_loadfactor (dir_run int_cmp int_hash 5 [Insert 0, Insert 11]) = Some (Inr 2)
   \<and> observe hashtabs_loadfactor (dir_run int_cmp int_hash 5 [Insert 0, Insert 11, Insert 1])
        = Some (Inr 1)
   \<and> observe hashtabs_loadfactor (dir_run int_cmp int_hash 5 [Insert 0, Insert 34]) = Some (Inr 1)
   \<and> observe hashtabs_loadfactor (dir_run int_cmp int_hash 5 [Insert 0, Insert 34, Rehash])
        = Some (Inr 2)"
  using lf1 lf2 lf3 lf4 by simp

text \<open>
  A rehash can also leave the load factor as it was: a directory that holds the single
  entry \<open>0\<close> has load factor \<open>1\<close> at capacity 11 and at capacity 17.
\<close>
lemma loadfactor_rehash_can_stay_equal:
  "observe hashtabs_loadfactor (dir_run int_cmp int_hash 5 [Insert 0]) = Some (Inr 1)
   \<and> observe hashtabs_loadfactor (dir_run int_cmp int_hash 5 [Insert 0, Rehash]) = Some (Inr 1)"
  by (simp add: dir_eval hashtabs_new_11)


section \<open>Directory: well-formed states\<close>

lemma chain_entries_inv:
  "queues_inv q as \<Longrightarrow> chain_entries (Some q) = chain_vals (q_nodes q) as"
  by (simp add: chain_entries_def queues_traverse_refine)

lemma chain_ok_entries: "chain_ok cmp q \<Longrightarrow> ascending cmp (chain_entries (Some q))"
  by (auto simp: chain_ok_def chain_entries_inv)

lemma chain_entries_new: "chain_entries (Some (queues_new cmp)) = []"
  using chain_entries_inv[of "queues_new cmp" "[]"]
  by (simp add: queues_new_def queues_inv_def chain_inv_Nil chain_vals_def)

lemma chain_ok_enqueu_entries:
  assumes t: "total_cmp cmp" and ok: "chain_ok cmp q"
  shows "\<exists>q'. queues_enqueu q x = Some (Inr q') \<and> chain_ok cmp q'
     \<and> chain_entries (Some q') = ins cmp x (chain_entries (Some q))
     \<and> ((\<exists>y \<in> set (chain_entries (Some q)). cmp x y = 0) \<longrightarrow> q' = q)"
proof -
  obtain as where a: "q_cmp q = cmp" "queues_inv q as" "ascending cmp (chain_vals (q_nodes q) as)"
    using ok by (auto simp: chain_ok_def)
  have tw: "three_way (q_cmp q)" using t a(1) total_three_way by auto
  from queues_enqueu_refine[OF tw a(2), of x] obtain q' as' where
    r: "queues_enqueu q x = Some (Inr q')" "queues_inv q' as'"
       "chain_vals (q_nodes q') as' = enq (q_cmp q) x (chain_vals (q_nodes q) as)"
       "q_cmp q' = q_cmp q"
    by blast
  have e: "chain_vals (q_nodes q') as' = ins cmp x (chain_vals (q_nodes q) as)"
    using r(3) a enq_eq_ins[OF t a(3)] by simp
  then have asc: "ascending cmp (chain_vals (q_nodes q') as')" using ascending_ins[OF t a(3)] by simp
  have dup: "(\<exists>y \<in> set (chain_entries (Some q)). cmp x y = 0) \<longrightarrow> q' = q"
  proof
    assume "\<exists>y \<in> set (chain_entries (Some q)). cmp x y = 0"
    then obtain y where y: "y \<in> set (chain_vals (q_nodes q) as)" "q_cmp q x y = 0"
      using a chain_entries_inv[OF a(2)] by auto
    have "queues_enqueu q x = Some (Inr q)"
      using queues_enqueu_dup[of q as y x] t a y by simp
    then show "q' = q" using r(1) by simp
  qed
  show ?thesis
    using r a e asc dup chain_entries_inv[OF a(2)] chain_entries_inv[OF r(2)]
    by (auto simp: chain_ok_def)
qed

lemma chain_ok_remove_entries:
  assumes t: "total_cmp cmp" and ok: "chain_ok cmp q"
  shows "\<exists>q'. queues_remove (Some q) x
         = Some (Inr (fst (del cmp x (chain_entries (Some q))), Some q'))
     \<and> chain_ok cmp q'
     \<and> chain_entries (Some q') = snd (del cmp x (chain_entries (Some q)))
     \<and> (fst (del cmp x (chain_entries (Some q))) = None \<longrightarrow> q' = q)"
proof -
  obtain as where a: "q_cmp q = cmp" "queues_inv q as" "ascending cmp (chain_vals (q_nodes q) as)"
    using ok by (auto simp: chain_ok_def)
  have tw: "three_way (q_cmp q)" using t a(1) total_three_way by auto
  from queues_remove_refine[OF tw a(2), of x] obtain q' as' where
    r: "queues_remove (Some q) x
         = Some (Inr (fst (rem (q_cmp q) x (chain_vals (q_nodes q) as)), Some q'))"
       "queues_inv q' as'"
       "chain_vals (q_nodes q') as' = snd (rem (q_cmp q) x (chain_vals (q_nodes q) as))"
       "q_cmp q' = q_cmp q"
       "fst (rem (q_cmp q) x (chain_vals (q_nodes q) as)) = None \<longrightarrow> q' = q"
    by (elim exE conjE) (rule that; assumption)
  have e: "rem (q_cmp q) x (chain_vals (q_nodes q) as) = del cmp x (chain_entries (Some q))"
    using rem_eq_del[OF t a(3)] a chain_entries_inv[OF a(2)] by simp
  have asc: "ascending cmp (chain_vals (q_nodes q') as')"
    using r(3) e ascending_del[OF t a(3)] chain_entries_inv[OF a(2)] by simp
  show ?thesis
    using r a asc chain_entries_inv[OF r(2)] unfolding e by (auto simp: chain_ok_def)
qed

lemma chain_ok_find_entries:
  assumes ok: "chain_ok cmp q"
  shows "queues_find (Some q) x = Some (Inr (fst (del cmp x (chain_entries (Some q)))))"
proof -
  obtain as where a: "q_cmp q = cmp" "queues_inv q as"
    using ok by (auto simp: chain_ok_def)
  show ?thesis using queues_find_refine[OF a(2), of x] a chain_entries_inv[OF a(2)]
    by (simp add: lfind_eq_del)
qed

lemma primes_nonzero: "i < length primes \<Longrightarrow> primes ! i \<noteq> 0"
proof -
  assume i: "i < length primes"
  have "primes ! 0 \<le> primes ! i" using sorted_nth_mono[OF sorted_primes, of 0 i] i by simp
  moreover have "primes ! 0 = 11" by (simp add: primes_def)
  ultimately show ?thesis by auto
qed

lemma primes_at_nonzero: "primes_at i = Inr cap \<Longrightarrow> cap \<noteq> 0"
  using primes_nonzero[of i] by (auto simp: primes_at_def split: if_splits)

lemma slot_in_range: "cap \<noteq> 0 \<Longrightarrow> unat ((h :: size_t) mod cap) < unat cap"
  by (simp add: unat_mod unat_gt_0)

lemma slot_ok_cong:
  "t_cmp t' = t_cmp t \<Longrightarrow> t_hash t' = t_hash t \<Longrightarrow> slot_ok t' cap i qo = slot_ok t cap i qo"
  by (simp add: slot_ok_def)

lemma hashtabs_insert_inv:
  assumes inv: "hashtabs_inv t" and tot: "total_cmp (t_cmp t)"
  shows "\<exists>t' cap arr q'. primes_at (t_cap_index t) = Inr cap \<and> t_A t = Some arr
     \<and> hashtabs_insert t x = Some (Inr t') \<and> hashtabs_inv t'
     \<and> t_size t' = t_size t + 1 \<and> t_cap_index t' = t_cap_index t
     \<and> t_cmp t' = t_cmp t \<and> t_hash t' = t_hash t
     \<and> unat (t_hash t x mod cap) < length arr
     \<and> t_A t' = Some (arr[unat (t_hash t x mod cap) := Some q'])
     \<and> chain_entries (Some q') = ins (t_cmp t) x (chain_entries (arr ! unat (t_hash t x mod cap)))
     \<and> ((\<exists>y \<in> set (chain_entries (arr ! unat (t_hash t x mod cap))). t_cmp t x y = 0)
           \<longrightarrow> t_A t' = t_A t)"
proof -
  obtain cap arr where c: "primes_at (t_cap_index t) = Inr cap" "t_A t = Some arr"
      "length arr = unat cap" "\<forall>i < length arr. slot_ok t cap i (arr ! i)"
    using inv by (auto simp: hashtabs_inv_def)
  let ?s = "unat (t_hash t x mod cap)"
  have s: "?s < length arr" using slot_in_range[OF primes_at_nonzero[OF c(1)]] c(3) by simp
  let ?q = "case arr ! ?s of None \<Rightarrow> queues_new (t_cmp t) | Some q0 \<Rightarrow> q0"
  have sk: "slot_ok t cap ?s (arr ! ?s)" using c(4) s by simp
  have ok: "chain_ok (t_cmp t) ?q"
    using sk by (cases "arr ! ?s") (auto simp: chain_ok_new slot_ok_def)
  have es: "chain_entries (Some ?q) = chain_entries (arr ! ?s)"
    by (cases "arr ! ?s") (simp_all add: chain_entries_new, simp add: chain_entries_def)
  from chain_ok_enqueu_entries[OF tot ok, of x] obtain q' where
    q': "queues_enqueu ?q x = Some (Inr q')" "chain_ok (t_cmp t) q'"
        "chain_entries (Some q') = ins (t_cmp t) x (chain_entries (Some ?q))"
        "(\<exists>y \<in> set (chain_entries (Some ?q)). t_cmp t x y = 0) \<longrightarrow> q' = ?q"
    by blast
  let ?ld = "if arr ! ?s = None then t_load t + 1 else t_load t"
  let ?t = "t\<lparr>t_load := ?ld, t_A := Some (arr[?s := Some q']), t_size := t_size t + 1\<rparr>"
  have run: "hashtabs_insert t x = Some (Inr ?t)"
    using c(1,2) s q'(1) by (simp add: hashtabs_insert_def Let_def)
  have so: "\<forall>i < length (arr[?s := Some q']). slot_ok ?t cap i (arr[?s := Some q'] ! i)"
  proof (intro allI impI)
    fix i assume i: "i < length (arr[?s := Some q'])"
    show "slot_ok ?t cap i (arr[?s := Some q'] ! i)"
    proof (cases "i = ?s")
      case True
      have "\<forall>v \<in> set (chain_entries (arr ! ?s)). unat (t_hash t v mod cap) = ?s"
        using sk by (simp add: slot_ok_def)
      then have "\<forall>v \<in> set (chain_entries (Some q')). unat (t_hash t v mod cap) = ?s"
        using q'(3) es set_ins(1)[of "t_cmp t" x "chain_entries (arr ! ?s)"] by auto
      then show ?thesis using True s q'(2) by (simp add: slot_ok_def)
    next
      case False
      then have "arr[?s := Some q'] ! i = arr ! i" by simp
      moreover have "slot_ok t cap i (arr ! i)" using c(4) i by simp
      ultimately show ?thesis by (simp add: slot_ok_def)
    qed
  qed
  have inv': "hashtabs_inv ?t"
    unfolding hashtabs_inv_def using c(1,3) so
    by (intro exI[of _ cap] exI[of _ "arr[?s := Some q']"]) simp
  have dup: "(\<exists>y \<in> set (chain_entries (arr ! ?s)). t_cmp t x y = 0) \<longrightarrow> t_A ?t = t_A t"
  proof
    assume d: "\<exists>y \<in> set (chain_entries (arr ! ?s)). t_cmp t x y = 0"
    then obtain q0 where q0: "arr ! ?s = Some q0" by (cases "arr ! ?s") (auto simp: chain_entries_def)
    have "q' = q0" using q'(4) d es q0 by simp
    then have "arr[?s := Some q'] = arr" using q0 by (metis list_update_id)
    then show "t_A ?t = t_A t" using c(2) by simp
  qed
  have f: "t_size ?t = t_size t + 1" "t_cap_index ?t = t_cap_index t" "t_cmp ?t = t_cmp t"
    "t_hash ?t = t_hash t" "t_A ?t = Some (arr[?s := Some q'])" by simp_all
  show ?thesis
    using c(1,2) run inv' f s q'(3)[unfolded es] dup by blast
qed

section \<open>Directory: insert and the size counter\<close>

text \<open>
  C2.  For every well-formed directory under a comparator that is a total order with
  results \<open>-1\<close>, \<open>0\<close>, \<open>1\<close> only, every insert call returns and increases the size
  counter by exactly one (in \<open>size_t\<close> arithmetic).  This
  includes the call whose selected chain holds an entry comparing equal to the inserted
  value: the chain rejects the value, the chain array and the sequence of entries stay as
  they were, and the size counter has grown all the same, so that it exceeds the number
  of entries by one more than before.
\<close>
theorem hashtabs_insert_counts_every_call:
  assumes "hashtabs_inv t" and "total_cmp (t_cmp t)"
  shows "\<exists>t'. hashtabs_insert t x = Some (Inr t')
     \<and> hashtabs_size t' = hashtabs_size t + 1
     \<and> ((\<exists>y \<in> set (slot_entries t x). t_cmp t x y = 0)
          \<longrightarrow> t_A t' = t_A t \<and> dir_entries t' = dir_entries t)"
proof -
  from hashtabs_insert_inv[OF assms, of x] obtain t' cap arr q' where
    r: "primes_at (t_cap_index t) = Inr cap" "t_A t = Some arr"
       "hashtabs_insert t x = Some (Inr t')" "t_size t' = t_size t + 1"
       "unat (t_hash t x mod cap) < length arr"
       "(\<exists>y \<in> set (chain_entries (arr ! unat (t_hash t x mod cap))). t_cmp t x y = 0)
           \<longrightarrow> t_A t' = t_A t"
    by (elim exE conjE) (rule that; assumption)
  have "slot_entries t x = chain_entries (arr ! unat (t_hash t x mod cap))"
    using r(1,2,5) by (simp add: slot_entries_def)
  then show ?thesis using r(3,4,6) by (auto simp: hashtabs_size_def dir_entries_def)
qed

section \<open>Directory: remove and find\<close>

lemma find_chains_None:
  assumes tot: "total_cmp cmp"
  shows "(\<forall>qo \<in> set qos. ascending cmp (chain_entries qo)) \<Longrightarrow>
     find_chains cmp x qos = None \<longleftrightarrow> (\<forall>qo \<in> set qos. \<forall>y \<in> set (chain_entries qo). cmp x y \<noteq> 0)"
proof (induction qos)
  case Nil
  then show ?case by simp
next
  case (Cons qo qos)
  have a: "ascending cmp (chain_entries qo)" using Cons.prems by simp
  have ih: "find_chains cmp x qos = None
      \<longleftrightarrow> (\<forall>qo \<in> set qos. \<forall>y \<in> set (chain_entries qo). cmp x y \<noteq> 0)"
    using Cons by simp
  show ?case
  proof (cases "fst (del cmp x (chain_entries qo))")
    case None
    then have "\<forall>y \<in> set (chain_entries qo). cmp x y \<noteq> 0" using del_None_iff[OF tot a, of x] by simp
    then show ?thesis using None ih by simp
  next
    case (Some z)
    then have "\<not> (\<forall>y \<in> set (chain_entries qo). cmp x y \<noteq> 0)"
      using del_None_iff[OF tot a, of x] by simp
    then show ?thesis using Some by auto
  qed
qed

lemma find_chains_Some:
  assumes tot: "total_cmp cmp"
  shows "(\<forall>qo \<in> set qos. ascending cmp (chain_entries qo)) \<Longrightarrow> find_chains cmp x qos = Some y \<Longrightarrow>
     (\<exists>qo \<in> set qos. y \<in> set (chain_entries qo)) \<and> cmp x y = 0"
proof (induction qos)
  case Nil
  then show ?case by simp
next
  case (Cons qo qos)
  have a: "ascending cmp (chain_entries qo)" using Cons.prems by simp
  show ?case
  proof (cases "fst (del cmp x (chain_entries qo))")
    case None
    then show ?thesis using Cons by auto
  next
    case (Some z)
    then have "z = y" using Cons.prems by simp
    then show ?thesis using del_Some[OF tot a Some] by simp
  qed
qed

lemma slot_ok_chain_ok: "slot_ok t cap i (Some q) \<Longrightarrow> chain_ok (t_cmp t) q"
  by (simp add: slot_ok_def)

lemma slot_ok_ascending: "slot_ok t cap i qo \<Longrightarrow> ascending (t_cmp t) (chain_entries qo)"
  by (cases qo) (auto simp: slot_ok_def chain_ok_entries, simp add: chain_entries_def)

lemma queues_find_slot:
  "slot_ok t cap i qo \<Longrightarrow>
     queues_find qo x = Some (Inr (fst (del (t_cmp t) x (chain_entries qo))))"
proof (cases qo)
  case None
  then show ?thesis by (simp add: queues_find_def chain_entries_def)
next
  case (Some q)
  assume "slot_ok t cap i qo"
  then show ?thesis using Some chain_ok_find_entries[of "t_cmp t" q x] by (simp add: slot_ok_def)
qed

lemma hashtabs_find_loop_spec:
  assumes arr: "t_A t = Some arr" and ok: "\<forall>i < length arr. slot_ok t cap i (arr ! i)"
  shows "i \<le> length arr \<Longrightarrow>
     hashtabs_find_loop t (length arr) x i = Some (Inr (find_chains (t_cmp t) x (drop i arr)))"
proof (induction "length arr - i" arbitrary: i)
  case 0
  then show ?case by (subst hashtabs_find_loop.simps) simp
next
  case (Suc n)
  then have i: "i < length arr" by simp
  have d: "drop i arr = arr ! i # drop (Suc i) arr" using i by (simp add: Cons_nth_drop_Suc)
  have f: "queues_find (arr ! i) x = Some (Inr (fst (del (t_cmp t) x (chain_entries (arr ! i)))))"
    using queues_find_slot[of t cap i "arr ! i" x] ok i by simp
  have ih: "hashtabs_find_loop t (length arr) x (Suc i)
      = Some (Inr (find_chains (t_cmp t) x (drop (Suc i) arr)))"
    using Suc.hyps(1)[of "Suc i"] Suc.hyps(2) i by simp
  show ?case
  proof (cases "fst (del (t_cmp t) x (chain_entries (arr ! i)))")
    case None
    then show ?thesis using i arr f ih d by (subst hashtabs_find_loop.simps) simp
  next
    case (Some y)
    then show ?thesis using i arr f d by (subst hashtabs_find_loop.simps) simp
  qed
qed

lemma hashtabs_find_spec:
  assumes inv: "hashtabs_inv t"
  shows "\<exists>arr. t_A t = Some arr \<and> hashtabs_find t x = Some (Inr (find_chains (t_cmp t) x arr))"
proof -
  obtain cap arr where c: "primes_at (t_cap_index t) = Inr cap" "t_A t = Some arr"
      "length arr = unat cap" "\<forall>i < length arr. slot_ok t cap i (arr ! i)"
    using inv by (auto simp: hashtabs_inv_def)
  have "hashtabs_find_loop t (length arr) x 0 = Some (Inr (find_chains (t_cmp t) x (drop 0 arr)))"
    by (rule hashtabs_find_loop_spec[OF c(2,4)]) simp
  then show ?thesis using c by (simp add: hashtabs_find_def)
qed

lemma queues_remove_slot:
  assumes tot: "total_cmp (t_cmp t)" and ok: "slot_ok t cap i qo"
  shows "(queues_remove qo x = Some (Inr (None, qo)) \<and> fst (del (t_cmp t) x (chain_entries qo)) = None)
     \<or> (\<exists>y q'. queues_remove qo x = Some (Inr (Some y, Some q'))
           \<and> fst (del (t_cmp t) x (chain_entries qo)) = Some y
           \<and> slot_ok t cap i (Some q') \<and> y \<in> set (chain_entries qo) \<and> t_cmp t x y = 0
           \<and> (\<forall>z \<in> set (chain_entries (Some q')). t_cmp t x z \<noteq> 0))"
proof (cases qo)
  case None
  then show ?thesis by (simp add: queues_remove_def chain_entries_def)
next
  case (Some q)
  have cok: "chain_ok (t_cmp t) q" using ok Some by (simp add: slot_ok_def)
  have asc: "ascending (t_cmp t) (chain_entries (Some q))" using chain_ok_entries[OF cok] .
  from chain_ok_remove_entries[OF tot cok, of x] obtain q' where
    r: "queues_remove (Some q) x
         = Some (Inr (fst (del (t_cmp t) x (chain_entries (Some q))), Some q'))"
       "chain_ok (t_cmp t) q'"
       "chain_entries (Some q') = snd (del (t_cmp t) x (chain_entries (Some q)))"
       "fst (del (t_cmp t) x (chain_entries (Some q))) = None \<longrightarrow> q' = q"
    by (elim exE conjE) (rule that; assumption)
  show ?thesis
  proof (cases "fst (del (t_cmp t) x (chain_entries (Some q)))")
    case None
    then show ?thesis using r Some by simp
  next
    case (Some y)
    note d = del_Some[OF tot asc Some]
    have sub: "set (chain_entries (Some q')) \<subseteq> set (chain_entries (Some q))"
      using r(3) del_set[of "t_cmp t" x "chain_entries (Some q)"] by simp
    have "slot_ok t cap i (Some q')"
      using ok \<open>qo = Some q\<close> r(2) sub by (auto simp: slot_ok_def)
    then show ?thesis using r Some d \<open>qo = Some q\<close> by auto
  qed
qed

lemma hashtabs_remove_loop_spec:
  assumes tot: "total_cmp (t_cmp t)" and arr: "t_A t = Some arr"
    and ok: "\<forall>i < length arr. slot_ok t cap i (arr ! i)"
  shows "i \<le> length arr \<Longrightarrow>
     (hashtabs_remove_loop t (length arr) x i = Some (Inr (None, t)))
     \<or> (\<exists>y k q'. hashtabs_remove_loop t (length arr) x i
            = Some (Inr (Some y, t\<lparr>t_A := Some (arr[k := Some q']), t_size := t_size t - 1,
                  t_load := (if queues_size q' = 0 then t_load t - 1 else t_load t)\<rparr>))
           \<and> k < length arr \<and> slot_ok t cap k (Some q') \<and> y \<in> set (chain_entries (arr ! k))
           \<and> t_cmp t x y = 0 \<and> (\<forall>z \<in> set (chain_entries (Some q')). t_cmp t x z \<noteq> 0))"
proof (induction "length arr - i" arbitrary: i)
  case 0
  then show ?case by (subst hashtabs_remove_loop.simps) simp
next
  case (Suc n)
  then have i: "i < length arr" by simp
  have same: "t\<lparr>t_A := Some arr\<rparr> = t" by (simp add: arr[symmetric])
  from queues_remove_slot[OF tot, of cap i "arr ! i" x] ok i
  consider (none) "queues_remove (arr ! i) x = Some (Inr (None, arr ! i))"
    | (some) y q' where "queues_remove (arr ! i) x = Some (Inr (Some y, Some q'))"
        "slot_ok t cap i (Some q')" "y \<in> set (chain_entries (arr ! i))" "t_cmp t x y = 0"
        "\<forall>z \<in> set (chain_entries (Some q')). t_cmp t x z \<noteq> 0"
    by blast
  then show ?case
  proof cases
    case none
    have step: "hashtabs_remove_loop t (length arr) x i = hashtabs_remove_loop t (length arr) x (Suc i)"
      using i by (subst hashtabs_remove_loop.simps) (simp add: arr none same)
    show ?thesis unfolding step using Suc.hyps(1)[of "Suc i"] Suc.hyps(2) i by simp
  next
    case some
    have "hashtabs_remove_loop t (length arr) x i
            = Some (Inr (Some y, t\<lparr>t_A := Some (arr[i := Some q']), t_size := t_size t - 1,
                  t_load := (if queues_size q' = 0 then t_load t - 1 else t_load t)\<rparr>))"
      using i arr some(1) by (subst hashtabs_remove_loop.simps) simp
    then show ?thesis using i some by blast
  qed
qed

text \<open>
  C7.  For every well-formed directory (comparator a total order with results \<open>-1\<close>,
  \<open>0\<close>, \<open>1\<close> only, hash function equal on entries that compare equal) and every key:
  when \<open>hashtabs_remove\<close> returns the removed
  entry, a following \<open>hashtabs_find\<close> of the key returns not-found, and the size counter
  is exactly one less than before (in \<open>size_t\<close> arithmetic).
\<close>
theorem hashtabs_remove_then_find:
  assumes inv: "hashtabs_inv t" and tot: "total_cmp (t_cmp t)"
    and hr: "hash_respects (t_cmp t) (t_hash t)"
    and rm: "hashtabs_remove t x = Some (Inr (Some y, t'))"
  shows "hashtabs_find t' x = Some (Inr None) \<and> hashtabs_size t' = hashtabs_size t - 1"
proof -
  obtain cap arr where c: "primes_at (t_cap_index t) = Inr cap" "t_A t = Some arr"
      "length arr = unat cap" "\<forall>i < length arr. slot_ok t cap i (arr ! i)"
    using inv by (auto simp: hashtabs_inv_def)
  have rl: "hashtabs_remove_loop t (length arr) x 0 = Some (Inr (Some y, t'))"
    using rm c by (simp add: hashtabs_remove_def)
  from hashtabs_remove_loop_spec[OF tot c(2,4), of 0 x] rl obtain k q' where
    r: "t' = t\<lparr>t_A := Some (arr[k := Some q']), t_size := t_size t - 1,
                  t_load := (if queues_size q' = 0 then t_load t - 1 else t_load t)\<rparr>"
       "k < length arr" "slot_ok t cap k (Some q')" "y \<in> set (chain_entries (arr ! k))"
       "t_cmp t x y = 0" "\<forall>z \<in> set (chain_entries (Some q')). t_cmp t x z \<noteq> 0"
    by auto
  let ?arr = "arr[k := Some q']"
  have f: "t_A t' = Some ?arr" "t_cmp t' = t_cmp t" "t_hash t' = t_hash t"
    "t_cap_index t' = t_cap_index t" "t_size t' = t_size t - 1"
    using r(1) by simp_all
  have ok': "\<forall>i < length ?arr. slot_ok t' cap i (?arr ! i)"
  proof (intro allI impI)
    fix i assume i: "i < length ?arr"
    have "slot_ok t cap i (?arr ! i)"
      using c(4) r(2,3) i by (cases "i = k") simp_all
    then show "slot_ok t' cap i (?arr ! i)" using slot_ok_cong[OF f(2,3)] by simp
  qed
  have yk: "unat (t_hash t y mod cap) = k" using c(4) r(2,4) by (simp add: slot_ok_def)
  have none: "\<forall>qo \<in> set ?arr. \<forall>z \<in> set (chain_entries qo). t_cmp t x z \<noteq> 0"
  proof (intro ballI)
    fix qo z assume qo: "qo \<in> set ?arr" and z: "z \<in> set (chain_entries qo)"
    obtain j where j: "j < length ?arr" "qo = ?arr ! j" using qo by (auto simp: in_set_conv_nth)
    show "t_cmp t x z \<noteq> 0"
    proof (cases "j = k")
      case True
      then show ?thesis using j r(2,6) z by simp
    next
      case False
      then have zj: "z \<in> set (chain_entries (arr ! j))" using j z by simp
      then have "unat (t_hash t z mod cap) = j" using c(4) j by (simp add: slot_ok_def)
      then have "t_hash t z \<noteq> t_hash t y" using yk False by auto
      moreover have "t_hash t x = t_hash t y" using hr r(5) by (simp add: hash_respects_def)
      ultimately show ?thesis using hr by (auto simp: hash_respects_def)
    qed
  qed
  have asc: "\<forall>qo \<in> set ?arr. ascending (t_cmp t) (chain_entries qo)"
    using ok' f(2) slot_ok_ascending by (metis in_set_conv_nth)
  have fc: "find_chains (t_cmp t) x ?arr = None"
    using find_chains_None[OF tot asc, of x] none by simp
  have "hashtabs_find_loop t' (length ?arr) x 0 = Some (Inr (find_chains (t_cmp t') x (drop 0 ?arr)))"
    by (rule hashtabs_find_loop_spec[OF f(1) ok']) simp
  then have "hashtabs_find t' x = Some (Inr None)"
    using c(1,3) f fc by (simp add: hashtabs_find_def)
  then show ?thesis using f(5) by (simp add: hashtabs_size_def)
qed

lemma q_zero_ok:
  "chain_ok int_cmp \<lparr>q_size = 1, q_cmp = int_cmp, q_head = Some 0, q_tail = Some 0,
                   q_nodes = [0 \<mapsto> \<lparr>node_x = 0, node_prev = None, node_next = None\<rparr>],
                   q_brk = 1\<rparr>"
  unfolding chain_ok_def
  by (auto intro!: exI[of _ "[0]"] simp: queues_inv_def chain_inv_def chain_vals_def ascending_def)

lemma q_zero_entries:
  "chain_entries (Some \<lparr>q_size = 1, q_cmp = int_cmp, q_head = Some 0, q_tail = Some 0,
                   q_nodes = [0 \<mapsto> \<lparr>node_x = (0::int), node_prev = None, node_next = None\<rparr>],
                   q_brk = 1\<rparr>) = [0]"
  by (simp add: chain_entries_def queues_traverse_def queues_map_r_def map_r_loop.simps collect_def)

lemma dir_one_inv: "hashtabs_inv dir_one"
proof -
  let ?q = "\<lparr>q_size = 1, q_cmp = int_cmp, q_head = Some 0, q_tail = Some 0,
                   q_nodes = [0 \<mapsto> \<lparr>node_x = (0::int), node_prev = None, node_next = None\<rparr>],
                   q_brk = 1\<rparr>"
  let ?arr = "(replicate 11 None)[0 := Some ?q]"
  have "\<forall>i < length ?arr. slot_ok dir_one 11 i (?arr ! i)"
  proof (intro allI impI)
    fix i assume i: "i < length ?arr"
    show "slot_ok dir_one 11 i (?arr ! i)"
    proof (cases "i = 0")
      case True
      then show ?thesis using q_zero_ok q_zero_entries
        by (simp add: slot_ok_def dir_one_def int_hash_def)
    next
      case False
      then have "?arr ! i = None" using i by simp
      then show ?thesis by (simp add: slot_ok_def chain_entries_def)
    qed
  qed
  then show ?thesis
    unfolding hashtabs_inv_def
    by (intro exI[of _ 11] exI[of _ ?arr]) (simp add: dir_one_def primes_at_def primes_def)
qed

lemma dir_one_total: "total_cmp (t_cmp dir_one)"
  using total_cmp_int by (simp add: dir_one_def)

lemma hash_respects_int: "hash_respects int_cmp int_hash"
  by (auto simp: hash_respects_def int_cmp_def split: if_splits)

lemma dir_one_slot: "\<exists>y \<in> set (slot_entries dir_one 0). t_cmp dir_one 0 y = 0"
  using q_zero_entries
  by (simp add: slot_entries_def dir_one_def primes_at_def primes_def int_hash_def int_cmp_def)

theorem hashtabs_insert_counts_every_call_witness:
  "hashtabs_inv dir_one \<and> total_cmp (t_cmp dir_one)
   \<and> (\<exists>y \<in> set (slot_entries dir_one 0). t_cmp dir_one 0 y = 0)
   \<and> (\<exists>t'. hashtabs_insert dir_one 0 = Some (Inr t')
         \<and> hashtabs_size t' = 2 \<and> t_A t' = t_A dir_one \<and> dir_entries t' = dir_entries dir_one)"
proof -
  have s: "hashtabs_size dir_one = 1" by (simp add: hashtabs_size_def dir_one_def)
  show ?thesis
    using dir_one_inv dir_one_total dir_one_slot s
      hashtabs_insert_counts_every_call[OF dir_one_inv dir_one_total, of 0]
    by auto
qed

lemma dir_one_remove: "\<exists>t'. hashtabs_remove dir_one 0 = Some (Inr (Some 0, t'))"
  by (simp add: dir_one_def eval_defs)

theorem hashtabs_remove_then_find_witness:
  "hashtabs_inv dir_one \<and> total_cmp (t_cmp dir_one)
   \<and> hash_respects (t_cmp dir_one) (t_hash dir_one)
   \<and> (\<exists>t'. hashtabs_remove dir_one 0 = Some (Inr (Some 0, t'))
         \<and> hashtabs_find t' 0 = Some (Inr None) \<and> hashtabs_size t' = 0)"
proof -
  obtain t' where t': "hashtabs_remove dir_one 0 = Some (Inr (Some 0, t'))"
    using dir_one_remove by blast
  have hr: "hash_respects (t_cmp dir_one) (t_hash dir_one)"
    using hash_respects_int by (simp add: dir_one_def)
  have s: "hashtabs_size dir_one = 1" by (simp add: hashtabs_size_def dir_one_def)
  show ?thesis
    using dir_one_inv dir_one_total hr t' s
      hashtabs_remove_then_find[OF dir_one_inv dir_one_total hr t']
    by auto
qed


section \<open>Directory: rehash\<close>

lemma primes_strict: "sorted_wrt (<) primes"
  unfolding primes_def by (simp only: sorted_wrt2[OF transp_on_less] sorted_wrt1 simp_thms) simp

lemma primes_strict_nth: "i < j \<Longrightarrow> j < length primes \<Longrightarrow> primes ! i < primes ! j"
  using primes_strict by (simp add: sorted_wrt_iff_nth_less)

lemma get_cap_index_prime:
  assumes "ci < 45"
  shows "get_cap_index (primes ! ci) = Suc ci"
proof -
  let ?r = "get_cap_index (primes ! ci)"
  note s = get_cap_index_spec[of "primes ! ci"]
  have a: "\<not> ?r \<le> ci"
  proof
    assume le: "?r \<le> ci"
    then have "?r < 45" using assms by simp
    then have "primes ! ci < primes ! ?r" using s by simp
    moreover have "primes ! ?r \<le> primes ! ci"
      using sorted_nth_mono[OF sorted_primes, of ?r ci] le assms by (simp add: length_primes)
    ultimately show False by simp
  qed
  have b: "\<not> Suc ci < ?r"
  proof
    assume "Suc ci < ?r"
    then have "primes ! Suc ci \<le> primes ! ci" using s by simp
    moreover have "primes ! ci < primes ! Suc ci"
      using primes_strict_nth[of ci "Suc ci"] assms by (simp add: length_primes)
    ultimately show False by simp
  qed
  show ?thesis using a b by simp
qed

lemma hashtabs_new_inv:
  assumes "get_cap_index n < 45"
  shows "\<exists>t0. hashtabs_new cmp hash n = Inr t0 \<and> hashtabs_inv t0 \<and> dir_entries t0 = []
     \<and> t_cmp t0 = cmp \<and> t_hash t0 = hash \<and> t_cap_index t0 = get_cap_index n"
proof -
  let ?i = "get_cap_index n"
  let ?cap = "primes ! ?i"
  let ?t = "\<lparr>t_size = 0, t_load = 0, t_cap_index = ?i, t_cmp = cmp, t_hash = hash,
              t_A = Some (replicate (unat ?cap) None)\<rparr>"
  have i: "?i < length primes" using assms by (simp add: length_primes)
  have "unat ?cap * 8 < 2 ^ 64" using primes_small_bound[OF assms] by simp
  then have new: "hashtabs_new cmp hash n = Inr ?t"
    using i by (simp add: hashtabs_new_def primes_at_def calloc_chains_def)
  have inv: "hashtabs_inv ?t"
    unfolding hashtabs_inv_def using i
    by (intro exI[of _ ?cap] exI[of _ "replicate (unat ?cap) None"])
       (simp add: primes_at_def slot_ok_def chain_entries_def)
  have e: "dir_entries ?t = []" by (simp add: dir_entries_def chain_entries_def)
  show ?thesis using new inv e by (intro exI[of _ ?t]) simp
qed

lemma set_concat_update:
  assumes s: "s < length arr" and sub: "set (f (arr ! s)) \<subseteq> set (f x)"
  shows "set (concat (map f (arr[s := x]))) = set (concat (map f arr)) \<union> set (f x)"
proof -
  have "set (concat (map f (arr[s := x]))) = (\<Union>i < length arr. set (f (arr[s := x] ! i)))"
    by (auto simp: set_conv_nth[of "arr[s := x]"])
  also have "\<dots> = (\<Union>i < length arr. set (f (arr ! i))) \<union> set (f x)"
  proof (intro equalityI subsetI)
    fix v assume "v \<in> (\<Union>i < length arr. set (f (arr[s := x] ! i)))"
    then obtain i where i: "i < length arr" "v \<in> set (f (arr[s := x] ! i))" by auto
    show "v \<in> (\<Union>i < length arr. set (f (arr ! i))) \<union> set (f x)"
      using i s by (cases "i = s") auto
  next
    fix v assume v: "v \<in> (\<Union>i < length arr. set (f (arr ! i))) \<union> set (f x)"
    show "v \<in> (\<Union>i < length arr. set (f (arr[s := x] ! i)))"
    proof (cases "v \<in> set (f x)")
      case True
      then show ?thesis using s by (auto intro!: bexI[of _ s])
    next
      case False
      then obtain i where i: "i < length arr" "v \<in> set (f (arr ! i))" using v by auto
      then have "i \<noteq> s" using False sub by auto
      then show ?thesis using i by (auto intro!: bexI[of _ i])
    qed
  qed
  also have "(\<Union>i < length arr. set (f (arr ! i))) = set (concat (map f arr))"
    by (auto simp: set_conv_nth[of arr])
  finally show ?thesis .
qed

lemma ins_dir_spec:
  assumes inv: "hashtabs_inv t" and tot: "total_cmp (t_cmp t)"
  shows "hashtabs_insert t v = Some (Inr (ins_dir t v)) \<and> hashtabs_inv (ins_dir t v)
     \<and> t_cmp (ins_dir t v) = t_cmp t \<and> t_hash (ins_dir t v) = t_hash t
     \<and> t_cap_index (ins_dir t v) = t_cap_index t
     \<and> set (dir_entries t) \<subseteq> set (dir_entries (ins_dir t v))
     \<and> set (dir_entries (ins_dir t v)) \<subseteq> insert v (set (dir_entries t))
     \<and> ((\<forall>y \<in> set (dir_entries t). t_cmp t v y \<noteq> 0) \<longrightarrow> v \<in> set (dir_entries (ins_dir t v)))"
proof -
  from hashtabs_insert_inv[OF inv tot, of v] obtain t' cap arr q' where
    r: "primes_at (t_cap_index t) = Inr cap" "t_A t = Some arr"
       "hashtabs_insert t v = Some (Inr t')" "hashtabs_inv t'"
       "t_cap_index t' = t_cap_index t" "t_cmp t' = t_cmp t" "t_hash t' = t_hash t"
       "unat (t_hash t v mod cap) < length arr"
       "t_A t' = Some (arr[unat (t_hash t v mod cap) := Some q'])"
       "chain_entries (Some q') = ins (t_cmp t) v (chain_entries (arr ! unat (t_hash t v mod cap)))"
    by (elim exE conjE) (rule that; assumption)
  let ?s = "unat (t_hash t v mod cap)"
  let ?es = "chain_entries (arr ! ?s)"
  have id: "ins_dir t v = t'" using r(3) by (simp add: ins_dir_def)
  have sub: "set ?es \<subseteq> set (chain_entries (Some q'))" using r(10) set_ins(2) by metis
  have e: "set (dir_entries t') = set (dir_entries t) \<union> set (ins (t_cmp t) v ?es)"
    using set_concat_update[OF r(8), of chain_entries "Some q'"] sub r(2,9,10)
    by (simp add: dir_entries_def)
  have "arr ! ?s \<in> set arr" using r(8) by simp
  then have es: "set ?es \<subseteq> set (dir_entries t)" using r(2) by (auto simp: dir_entries_def)
  have a: "set (dir_entries t) \<subseteq> set (dir_entries t')" using e by auto
  have b: "set (dir_entries t') \<subseteq> insert v (set (dir_entries t))"
    using e es set_ins(1)[of "t_cmp t" v ?es] by auto
  have c: "(\<forall>y \<in> set (dir_entries t). t_cmp t v y \<noteq> 0) \<longrightarrow> v \<in> set (dir_entries t')"
  proof
    assume "\<forall>y \<in> set (dir_entries t). t_cmp t v y \<noteq> 0"
    then have "\<forall>y \<in> set ?es. t_cmp t v y \<noteq> 0" using es by auto
    then have "v \<in> set (ins (t_cmp t) v ?es)" using ins_new[of ?es "t_cmp t" v] by simp
    then show "v \<in> set (dir_entries t')" using e by simp
  qed
  show ?thesis unfolding id using r(3,4,5,6,7) a b c by simp
qed

lemma ascending_unique:
  assumes tot: "total_cmp cmp" and asc: "ascending cmp xs"
    and x: "x \<in> set xs" and y: "y \<in> set xs" and eq: "cmp x y = 0"
  shows "x = y"
proof -
  obtain i j where ij: "i < length xs" "xs ! i = x" "j < length xs" "xs ! j = y"
    using x y by (auto simp: in_set_conv_nth)
  have lt: "\<And>a b. a < b \<Longrightarrow> b < length xs \<Longrightarrow> cmp (xs ! a) (xs ! b) < 0"
    using asc by (simp add: ascending_def sorted_wrt_iff_nth_less)
  show ?thesis
  proof (cases i j rule: linorder_cases)
    case less
    then show ?thesis using lt[of i j] ij eq by simp
  next
    case equal
    then show ?thesis using ij by simp
  next
    case greater
    then have "cmp y x < 0" using lt[of j i] ij by simp
    then show ?thesis using total_flip[OF tot, of x y] eq by simp
  qed
qed

lemma dir_entries_slot:
  assumes "t_A t = Some arr" and "x \<in> set (dir_entries t)"
  shows "\<exists>i < length arr. x \<in> set (chain_entries (arr ! i))"
proof -
  obtain qo where "qo \<in> set arr" "x \<in> set (chain_entries qo)"
    using assms by (auto simp: dir_entries_def)
  then show ?thesis by (metis in_set_conv_nth)
qed

lemma dir_entries_unique:
  assumes inv: "hashtabs_inv t" and tot: "total_cmp (t_cmp t)"
    and hr: "hash_respects (t_cmp t) (t_hash t)"
    and x: "x \<in> set (dir_entries t)" and y: "y \<in> set (dir_entries t)" and eq: "t_cmp t x y = 0"
  shows "x = y"
proof -
  obtain cap arr where c: "primes_at (t_cap_index t) = Inr cap" "t_A t = Some arr"
      "length arr = unat cap" "\<forall>i < length arr. slot_ok t cap i (arr ! i)"
    using inv by (auto simp: hashtabs_inv_def)
  obtain i where i: "i < length arr" "x \<in> set (chain_entries (arr ! i))"
    using dir_entries_slot[OF c(2) x] by blast
  obtain j where j: "j < length arr" "y \<in> set (chain_entries (arr ! j))"
    using dir_entries_slot[OF c(2) y] by blast
  have "unat (t_hash t x mod cap) = i" "unat (t_hash t y mod cap) = j"
    using c(4) i j by (auto simp: slot_ok_def)
  moreover have "t_hash t x = t_hash t y" using hr eq by (simp add: hash_respects_def)
  ultimately have "i = j" by simp
  then have "y \<in> set (chain_entries (arr ! i))" using j by simp
  moreover have "ascending (t_cmp t) (chain_entries (arr ! i))"
    using slot_ok_ascending c(4) i by blast
  ultimately show ?thesis using ascending_unique[OF tot _ i(2) _ eq] by simp
qed

lemma dir_like_ins:
  assumes tot: "total_cmp (t_cmp t0)" and l: "dir_like t0 t"
  shows "hashtabs_insert t v = Some (Inr (ins_dir t v)) \<and> dir_like t0 (ins_dir t v)"
proof -
  have inv: "hashtabs_inv t" and tc: "total_cmp (t_cmp t)" using l tot by (simp_all add: dir_like_def)
  show ?thesis using ins_dir_spec[OF inv tc, of v] l by (simp add: dir_like_def)
qed

lemma fold_ins_dir:
  assumes tot: "total_cmp (t_cmp t0)"
  shows "dir_like t0 t \<Longrightarrow>
     (\<forall>x \<in> set xs \<union> set (dir_entries t). \<forall>y \<in> set xs \<union> set (dir_entries t).
         t_cmp t0 x y = 0 \<longrightarrow> x = y) \<Longrightarrow>
     dir_like t0 (fold (\<lambda>v t. ins_dir t v) xs t)
     \<and> set (dir_entries (fold (\<lambda>v t. ins_dir t v) xs t)) = set xs \<union> set (dir_entries t)"
proof (induction xs arbitrary: t)
  case Nil
  then show ?case by simp
next
  case (Cons v xs)
  have inv: "hashtabs_inv t" and tc: "total_cmp (t_cmp t)" and ce: "t_cmp t = t_cmp t0"
    using Cons.prems(1) tot by (simp_all add: dir_like_def)
  note s = ins_dir_spec[OF inv tc, of v]
  have l': "dir_like t0 (ins_dir t v)" using dir_like_ins[OF tot Cons.prems(1)] by simp
  have e: "set (dir_entries (ins_dir t v)) = insert v (set (dir_entries t))"
  proof (cases "v \<in> set (dir_entries t)")
    case True
    then show ?thesis using s by auto
  next
    case False
    have "\<forall>y \<in> set (dir_entries t). t_cmp t v y \<noteq> 0"
    proof
      fix y assume y: "y \<in> set (dir_entries t)"
      show "t_cmp t v y \<noteq> 0"
      proof
        assume "t_cmp t v y = 0"
        then have "v = y" using Cons.prems(2) y ce by auto
        then show False using False y by simp
      qed
    qed
    then show ?thesis using s by auto
  qed
  have u: "\<forall>x \<in> set xs \<union> set (dir_entries (ins_dir t v)).
        \<forall>y \<in> set xs \<union> set (dir_entries (ins_dir t v)). t_cmp t0 x y = 0 \<longrightarrow> x = y"
    using Cons.prems(2) e by auto
  from Cons.IH[OF l' u] show ?case using e by auto
qed

lemma queues_map_r_rehash:
  assumes tot: "total_cmp (t_cmp t0)" and ok: "slot_ok t cap i qo" and l: "dir_like t0 t'"
  shows "queues_map_r qo rehash_cb t'
          = Some (Inr (1, qo, fold (\<lambda>v t. ins_dir t v) (chain_entries qo) t'))"
proof (cases qo)
  case None
  then show ?thesis by (simp add: queues_map_r_def chain_entries_def)
next
  case (Some q)
  then have "chain_ok (t_cmp t) q" using ok by (simp add: slot_ok_def)
  then obtain as where a: "queues_inv q as" by (auto simp: chain_ok_def)
  have sg: "seg node_next (q_nodes q) (q_head q) as None"
    using a by (simp add: queues_inv_def chain_inv_def)
  have step: "\<And>v y. v \<in> set (chain_vals (q_nodes q) as) \<Longrightarrow> dir_like t0 y \<Longrightarrow>
      rehash_cb v y = Some (Inr (1, v, ins_dir y v)) \<and> dir_like t0 (ins_dir y v)"
    using dir_like_ins[OF tot] by (simp add: rehash_cb_def)
  have "map_r_loop (q_nodes q) rehash_cb t' (q_head q)
      = Some (Inr (1, q_nodes q, fold (\<lambda>v t. ins_dir t v) (chain_vals (q_nodes q) as) t'))
      \<and> dir_like t0 (fold (\<lambda>v t. ins_dir t v) (chain_vals (q_nodes q) as) t')"
    by (rule map_r_loop_refine[where I = "dir_like t0" and g = "\<lambda>v t. ins_dir t v", OF step sg l])
  then show ?thesis using Some chain_entries_inv[OF a] by (simp add: queues_map_r_def)
qed

lemma hashtabs_rehash_loop_spec:
  assumes tot: "total_cmp (t_cmp t0)" and arr: "t_A t = Some arr"
    and ok: "\<forall>i < length arr. slot_ok t cap i (arr ! i)"
    and u: "\<forall>x \<in> set (dir_entries t). \<forall>y \<in> set (dir_entries t). t_cmp t0 x y = 0 \<longrightarrow> x = y"
  shows "i \<le> length arr \<Longrightarrow> dir_like t0 t' \<Longrightarrow>
     set (dir_entries t') \<subseteq> set (dir_entries t) \<Longrightarrow>
     hashtabs_rehash_loop t (length arr) t' i
       = Some (Inr (t, fold (\<lambda>v t. ins_dir t v) (concat (map chain_entries (drop i arr))) t'))"
proof (induction "length arr - i" arbitrary: i t')
  case 0
  then show ?case by (subst hashtabs_rehash_loop.simps) simp
next
  case (Suc n)
  then have i: "i < length arr" by simp
  have same: "t\<lparr>t_A := Some arr\<rparr> = t" by (simp add: arr[symmetric])
  have d: "drop i arr = arr ! i # drop (Suc i) arr" using i by (simp add: Cons_nth_drop_Suc)
  let ?es = "chain_entries (arr ! i)"
  let ?t'' = "fold (\<lambda>v t. ins_dir t v) ?es t'"
  have sk: "slot_ok t cap i (arr ! i)" using ok i by simp
  have m: "queues_map_r (arr ! i) rehash_cb t' = Some (Inr (1, arr ! i, ?t''))"
    using queues_map_r_rehash[OF tot sk Suc.prems(2)] .
  have "arr ! i \<in> set arr" using i by simp
  then have es: "set ?es \<subseteq> set (dir_entries t)" using arr by (auto simp: dir_entries_def)
  have u': "\<forall>x \<in> set ?es \<union> set (dir_entries t'). \<forall>y \<in> set ?es \<union> set (dir_entries t').
      t_cmp t0 x y = 0 \<longrightarrow> x = y"
    using u es Suc.prems(3) by (meson Un_iff subsetD)
  note f = fold_ins_dir[OF tot Suc.prems(2) u']
  have l'': "dir_like t0 ?t''" using f by simp
  have s'': "set (dir_entries ?t'') \<subseteq> set (dir_entries t)" using f es Suc.prems(3) by auto
  have ih: "hashtabs_rehash_loop t (length arr) ?t'' (Suc i)
       = Some (Inr (t, fold (\<lambda>v t. ins_dir t v) (concat (map chain_entries (drop (Suc i) arr))) ?t''))"
    using Suc.hyps(1)[of "Suc i" ?t''] Suc.hyps(2) i l'' s'' by simp
  have step: "hashtabs_rehash_loop t (length arr) t' i = hashtabs_rehash_loop t (length arr) ?t'' (Suc i)"
    using i by (subst hashtabs_rehash_loop.simps) (simp add: arr m same)
  show ?case unfolding step ih by (simp add: d)
qed

lemma queues_map_r_collect:
  assumes ok: "slot_ok t cap i qo"
  shows "queues_map_r qo collect acc = Some (Inr (1, qo, acc @ chain_entries qo))"
proof (cases qo)
  case None
  then show ?thesis by (simp add: queues_map_r_def chain_entries_def)
next
  case (Some q)
  then have "chain_ok (t_cmp t) q" using ok by (simp add: slot_ok_def)
  then obtain as where a: "queues_inv q as" by (auto simp: chain_ok_def)
  have sg: "seg node_next (q_nodes q) (q_head q) as None"
    using a by (simp add: queues_inv_def chain_inv_def)
  have "map_r_loop (q_nodes q) collect acc (q_head q)
     = Some (Inr (1, q_nodes q, fold (\<lambda>v acc. acc @ [v]) (chain_vals (q_nodes q) as) acc)) \<and> True"
    by (rule map_r_loop_refine[where I = "\<lambda>_. True", OF _ sg]) (simp_all add: collect_def)
  then show ?thesis using Some chain_entries_inv[OF a]
    by (simp add: queues_map_r_def fold_snoc_id)
qed

lemma hashtabs_map_r_loop_collect:
  assumes arr: "t_A t = Some arr" and ok: "\<forall>i < length arr. slot_ok t cap i (arr ! i)"
  shows "i \<le> length arr \<Longrightarrow>
     hashtabs_map_r_loop t (length arr) collect acc i
       = Some (Inr (1, t, acc @ concat (map chain_entries (drop i arr))))"
proof (induction "length arr - i" arbitrary: i acc)
  case 0
  then show ?case by (subst hashtabs_map_r_loop.simps) simp
next
  case (Suc n)
  then have i: "i < length arr" by simp
  have same: "t\<lparr>t_A := Some arr\<rparr> = t" by (simp add: arr[symmetric])
  have d: "drop i arr = arr ! i # drop (Suc i) arr" using i by (simp add: Cons_nth_drop_Suc)
  have sk: "slot_ok t cap i (arr ! i)" using ok i by simp
  have m: "queues_map_r (arr ! i) collect acc
      = Some (Inr (1, arr ! i, acc @ chain_entries (arr ! i)))"
    using queues_map_r_collect[OF sk] .
  have ih: "hashtabs_map_r_loop t (length arr) collect (acc @ chain_entries (arr ! i)) (Suc i)
       = Some (Inr (1, t, (acc @ chain_entries (arr ! i))
                            @ concat (map chain_entries (drop (Suc i) arr))))"
    using Suc.hyps(1)[of "Suc i"] Suc.hyps(2) i by simp
  have step: "hashtabs_map_r_loop t (length arr) collect acc i
      = hashtabs_map_r_loop t (length arr) collect (acc @ chain_entries (arr ! i)) (Suc i)"
    using i by (subst hashtabs_map_r_loop.simps) (simp add: arr m same)
  show ?case unfolding step ih by (simp add: d)
qed

lemma hashtabs_traverse_spec:
  assumes inv: "hashtabs_inv t"
  shows "hashtabs_traverse t = Some (Inr (dir_entries t))"
proof -
  obtain cap arr where c: "primes_at (t_cap_index t) = Inr cap" "t_A t = Some arr"
      "length arr = unat cap" "\<forall>i < length arr. slot_ok t cap i (arr ! i)"
    using inv by (auto simp: hashtabs_inv_def)
  have "hashtabs_map_r_loop t (length arr) collect [] 0
      = Some (Inr (1, t, [] @ concat (map chain_entries (drop 0 arr))))"
    by (rule hashtabs_map_r_loop_collect[OF c(2,4)]) simp
  then show ?thesis using c
    by (simp add: hashtabs_traverse_def hashtabs_map_r_def dir_entries_def)
qed

lemma hashtabs_find_iff:
  assumes inv: "hashtabs_inv t" and tot: "total_cmp (t_cmp t)"
    and hr: "hash_respects (t_cmp t) (t_hash t)"
  shows "hashtabs_find t x = Some (Inr (Some y))
     \<longleftrightarrow> y \<in> set (dir_entries t) \<and> t_cmp t x y = 0"
proof -
  obtain cap arr where c: "primes_at (t_cap_index t) = Inr cap" "t_A t = Some arr"
      "length arr = unat cap" "\<forall>i < length arr. slot_ok t cap i (arr ! i)"
    using inv by (auto simp: hashtabs_inv_def)
  have f: "hashtabs_find t x = Some (Inr (find_chains (t_cmp t) x arr))"
    using hashtabs_find_spec[OF inv, of x] c(2) by simp
  have asc: "\<forall>qo \<in> set arr. ascending (t_cmp t) (chain_entries qo)"
  proof
    fix qo assume "qo \<in> set arr"
    then obtain i where "i < length arr" "qo = arr ! i" by (auto simp: in_set_conv_nth)
    then show "ascending (t_cmp t) (chain_entries qo)" using c(4) slot_ok_ascending by blast
  qed
  have de: "set (dir_entries t) = (\<Union>qo \<in> set arr. set (chain_entries qo))"
    using c(2) by (simp add: dir_entries_def)
  show ?thesis
  proof
    assume "hashtabs_find t x = Some (Inr (Some y))"
    then have "find_chains (t_cmp t) x arr = Some y" using f by simp
    then show "y \<in> set (dir_entries t) \<and> t_cmp t x y = 0"
      using find_chains_Some[OF tot asc] de by auto
  next
    assume a: "y \<in> set (dir_entries t) \<and> t_cmp t x y = 0"
    then have "\<not> (\<forall>qo \<in> set arr. \<forall>z \<in> set (chain_entries qo). t_cmp t x z \<noteq> 0)"
      using de by auto
    then have "find_chains (t_cmp t) x arr \<noteq> None"
      using find_chains_None[OF tot asc, of x] by simp
    then obtain z where z: "find_chains (t_cmp t) x arr = Some z" by auto
    have zz: "z \<in> set (dir_entries t)" "t_cmp t x z = 0"
      using find_chains_Some[OF tot asc z] de by auto
    have "t_cmp t z y = 0" using total_eq_cong[OF tot zz(2), of y] a by simp
    then have "z = y" using dir_entries_unique[OF inv tot hr zz(1)] a by simp
    then show "hashtabs_find t x = Some (Inr (Some y))" using f z by simp
  qed
qed

lemma primes_at_lt: "i < 46 \<Longrightarrow> primes_at i = Inr (primes ! i)"
  by (simp add: primes_at_def length_primes)

lemma hashtabs_rehash_spec:
  assumes inv: "hashtabs_inv t" and tot: "total_cmp (t_cmp t)"
    and hr: "hash_respects (t_cmp t) (t_hash t)" and ci: "t_cap_index t < 44"
  shows "\<exists>t'. hashtabs_rehash t = Some (Inr (t, t')) \<and> hashtabs_inv t'
     \<and> t_cmp t' = t_cmp t \<and> t_hash t' = t_hash t \<and> t_cap_index t' = Suc (t_cap_index t)
     \<and> set (dir_entries t') = set (dir_entries t)"
proof -
  obtain cap arr where c: "primes_at (t_cap_index t) = Inr cap" "t_A t = Some arr"
      "length arr = unat cap" "\<forall>i < length arr. slot_ok t cap i (arr ! i)"
    using inv by (auto simp: hashtabs_inv_def)
  have cap: "cap = primes ! t_cap_index t" using c(1) ci by (simp add: primes_at_lt)
  have g: "get_cap_index cap = Suc (t_cap_index t)"
    unfolding cap using get_cap_index_prime[of "t_cap_index t"] ci by simp
  then have g45: "get_cap_index cap < 45" using ci by simp
  from hashtabs_new_inv[OF g45, of "t_cmp t" "t_hash t"] obtain t0 where
    n: "hashtabs_new (t_cmp t) (t_hash t) cap = Inr t0" "hashtabs_inv t0" "dir_entries t0 = []"
       "t_cmp t0 = t_cmp t" "t_hash t0 = t_hash t" "t_cap_index t0 = get_cap_index cap"
    by (elim exE conjE) (rule that; assumption)
  have tot0: "total_cmp (t_cmp t0)" using tot n(4) by simp
  have l0: "dir_like t0 t0" using n(2) by (simp add: dir_like_def)
  have u: "\<forall>x \<in> set (dir_entries t). \<forall>y \<in> set (dir_entries t). t_cmp t0 x y = 0 \<longrightarrow> x = y"
    using dir_entries_unique[OF inv tot hr] n(4) by auto
  let ?t' = "fold (\<lambda>v t. ins_dir t v) (concat (map chain_entries (drop 0 arr))) t0"
  have loop: "hashtabs_rehash_loop t (length arr) t0 0 = Some (Inr (t, ?t'))"
    by (rule hashtabs_rehash_loop_spec[OF tot0 c(2,4) u _ l0]) (simp_all add: n(3))
  have es: "concat (map chain_entries (drop 0 arr)) = dir_entries t"
    using c(2) by (simp add: dir_entries_def)
  have u': "\<forall>x \<in> set (dir_entries t) \<union> set (dir_entries t0).
      \<forall>y \<in> set (dir_entries t) \<union> set (dir_entries t0). t_cmp t0 x y = 0 \<longrightarrow> x = y"
    using u n(3) by simp
  from fold_ins_dir[OF tot0 l0 u'] have
    r: "dir_like t0 (fold (\<lambda>v t. ins_dir t v) (dir_entries t) t0)"
       "set (dir_entries (fold (\<lambda>v t. ins_dir t v) (dir_entries t) t0)) = set (dir_entries t)"
    using n(3) by simp_all
  have rh: "hashtabs_rehash t = Some (Inr (t, fold (\<lambda>v t. ins_dir t v) (dir_entries t) t0))"
    using loop c(1,3) n(1) es by (simp add: hashtabs_rehash_def)
  show ?thesis using rh r n(4,5,6) g by (auto simp: dir_like_def)
qed

text \<open>
  C5.  For every well-formed directory \<open>t\<close> below the last ladder prime (comparator
  a total order with results \<open>-1\<close>, \<open>0\<close>, \<open>1\<close> only, hash function equal on entries
  that compare equal), \<open>hashtabs_rehash\<close>
  returns a well-formed directory \<open>t'\<close> and leaves \<open>t\<close> as it was; full traversal of
  \<open>t'\<close> reaches the same set of entries as full traversal of \<open>t\<close>; the capacity of
  \<open>t'\<close> is the least member of the prime ladder strictly above the capacity of \<open>t\<close>;
  and every key found in \<open>t\<close> is found in \<open>t'\<close> with the identical entry.
\<close>
theorem hashtabs_rehash_migrates:
  assumes inv: "hashtabs_inv t" and tot: "total_cmp (t_cmp t)"
    and hr: "hash_respects (t_cmp t) (t_hash t)" and ci: "t_cap_index t < 44"
  shows "\<exists>t' es es' cap cap'.
      hashtabs_rehash t = Some (Inr (t, t')) \<and> hashtabs_inv t'
    \<and> hashtabs_traverse t = Some (Inr es) \<and> hashtabs_traverse t' = Some (Inr es')
    \<and> set es' = set es
    \<and> hashtabs_capacity t = Inr cap \<and> hashtabs_capacity t' = Inr cap'
    \<and> cap' \<in> set primes \<and> cap < cap' \<and> (\<forall>p \<in> set primes. cap < p \<longrightarrow> cap' \<le> p)
    \<and> (\<forall>x y. hashtabs_find t x = Some (Inr (Some y))
            \<longrightarrow> hashtabs_find t' x = Some (Inr (Some y)))"
proof -
  from hashtabs_rehash_spec[OF inv tot hr ci] obtain t' where
    r: "hashtabs_rehash t = Some (Inr (t, t'))" "hashtabs_inv t'" "t_cmp t' = t_cmp t"
       "t_hash t' = t_hash t" "t_cap_index t' = Suc (t_cap_index t)"
       "set (dir_entries t') = set (dir_entries t)"
    by (elim exE conjE) (rule that; assumption)
  let ?i = "t_cap_index t"
  have tr: "hashtabs_traverse t = Some (Inr (dir_entries t))"
    using hashtabs_traverse_spec[OF inv] .
  have tr': "hashtabs_traverse t' = Some (Inr (dir_entries t'))"
    using hashtabs_traverse_spec[OF r(2)] .
  have c: "hashtabs_capacity t = Inr (primes ! ?i)"
    using ci by (simp add: hashtabs_capacity_def primes_at_lt)
  have c': "hashtabs_capacity t' = Inr (primes ! Suc ?i)"
    using ci r(5) by (simp add: hashtabs_capacity_def primes_at_lt)
  have m: "primes ! Suc ?i \<in> set primes" using ci by (simp add: length_primes)
  have lt: "primes ! ?i < primes ! Suc ?i"
    using primes_strict_nth[of ?i "Suc ?i"] ci by (simp add: length_primes)
  have least: "\<forall>p \<in> set primes. primes ! ?i < p \<longrightarrow> primes ! Suc ?i \<le> p"
  proof (intro ballI impI)
    fix p assume p: "p \<in> set primes" "primes ! ?i < p"
    have "\<forall>j < Suc ?i. primes ! j \<le> primes ! ?i"
      using sorted_nth_mono[OF sorted_primes] ci by (simp add: length_primes)
    then show "primes ! Suc ?i \<le> p"
      using primes_least[of "Suc ?i" "primes ! ?i" p] lt p ci by simp
  qed
  have tot': "total_cmp (t_cmp t')" and hr': "hash_respects (t_cmp t') (t_hash t')"
    using tot hr r(3,4) by simp_all
  have fnd: "\<forall>x y. hashtabs_find t x = Some (Inr (Some y))
            \<longrightarrow> hashtabs_find t' x = Some (Inr (Some y))"
    using hashtabs_find_iff[OF inv tot hr] hashtabs_find_iff[OF r(2) tot' hr'] r(3,6) by simp
  show ?thesis using r(1,2) tr tr' r(6) c c' m lt least fnd by blast
qed

lemma primes_43: "primes ! 43 = 513862367"
  by (simp add: primes_def)

lemma get_cap_index_last: "get_cap_index 513862367 = 44"
  using get_cap_index_prime[of 43] by (simp add: primes_43)

lemma hashtabs_new_sentinel:
  "hashtabs_new cmp hash 770793589
     = Inr \<lparr>t_size = 0, t_load = 0, t_cap_index = 45, t_cmp = cmp, t_hash = hash, t_A = None\<rparr>"
  by (simp add: hashtabs_new_def get_cap_index_sentinel primes_at_def length_primes primes_45
      calloc_chains_def unat_size_max)

lemma hashtabs_insert_no_array:
  "t_A t = None \<Longrightarrow> t_cap_index t < 46 \<Longrightarrow> hashtabs_insert t v = Some (Inl NullDeref)"
  by (simp add: hashtabs_insert_def primes_at_lt)

lemma queues_map_r_empty:
  assumes ok: "slot_ok t cap i qo" and e: "chain_entries qo = []"
  shows "queues_map_r qo app y = Some (Inr (1, qo, y))"
proof (cases qo)
  case None
  then show ?thesis by (simp add: queues_map_r_def)
next
  case (Some q)
  then have "chain_ok (t_cmp t) q" using ok by (simp add: slot_ok_def)
  then obtain as where a: "queues_inv q as" by (auto simp: chain_ok_def)
  have "as = []" using e Some chain_entries_inv[OF a] by (simp add: chain_vals_Nil_iff)
  then have "q_head q = None" using a by (simp add: queues_inv_def chain_inv_Nil)
  then show ?thesis using Some by (simp add: queues_map_r_def map_r_loop.simps)
qed

lemma queues_map_r_fault:
  assumes ok: "slot_ok t cap i qo" and ne: "chain_entries qo \<noteq> []"
    and app: "\<And>v. app v y = Some (Inl e)"
  shows "queues_map_r qo app y = Some (Inl e)"
proof (cases qo)
  case None
  then show ?thesis using ne by (simp add: chain_entries_def)
next
  case (Some q)
  then have "chain_ok (t_cmp t) q" using ok by (simp add: slot_ok_def)
  then obtain as where a: "queues_inv q as" by (auto simp: chain_ok_def)
  have "as \<noteq> []" using ne Some chain_entries_inv[OF a] by (simp add: chain_vals_Nil_iff)
  then obtain b bs where as: "as = b # bs" by (cases as) auto
  have "seg node_next (q_nodes q) (q_head q) (b # bs) None"
    using a as by (simp add: queues_inv_def chain_inv_def)
  then obtain n where n: "q_head q = Some b" "q_nodes q b = Some n"
    by (auto simp: seg_Cons_iff simp del: seg.simps)
  have "map_r_loop (q_nodes q) app y (q_head q) = Some (Inl e)"
    using n app by (subst map_r_loop.simps) simp
  then show ?thesis using Some by (simp add: queues_map_r_def)
qed

lemma hashtabs_rehash_loop_fault:
  assumes arr: "t_A t = Some arr" and ok: "\<forall>i < length arr. slot_ok t cap i (arr ! i)"
    and na: "t_A t' = None" and ci: "t_cap_index t' < 46"
  shows "i \<le> length arr \<Longrightarrow> concat (map chain_entries (drop i arr)) \<noteq> [] \<Longrightarrow>
     hashtabs_rehash_loop t (length arr) t' i = Some (Inl NullDeref)"
proof (induction "length arr - i" arbitrary: i)
  case 0
  then show ?case by simp
next
  case (Suc n)
  then have i: "i < length arr" by simp
  have same: "t\<lparr>t_A := Some arr\<rparr> = t" by (simp add: arr[symmetric])
  have d: "drop i arr = arr ! i # drop (Suc i) arr" using i by (simp add: Cons_nth_drop_Suc)
  have sk: "slot_ok t cap i (arr ! i)" using ok i by simp
  show ?case
  proof (cases "chain_entries (arr ! i) = []")
    case True
    have m: "queues_map_r (arr ! i) rehash_cb t' = Some (Inr (1, arr ! i, t'))"
      using queues_map_r_empty[OF sk True] .
    have rest: "concat (map chain_entries (drop (Suc i) arr)) \<noteq> []"
      using Suc.prems(2) True by (simp add: d)
    have ih: "hashtabs_rehash_loop t (length arr) t' (Suc i) = Some (Inl NullDeref)"
      using Suc.hyps(1)[of "Suc i"] Suc.hyps(2) i rest by simp
    have step: "hashtabs_rehash_loop t (length arr) t' i
        = hashtabs_rehash_loop t (length arr) t' (Suc i)"
      using i by (subst hashtabs_rehash_loop.simps) (simp add: arr m same)
    show ?thesis unfolding step ih ..
  next
    case False
    have cb: "\<And>v. rehash_cb v t' = Some (Inl NullDeref)"
      using hashtabs_insert_no_array[OF na ci] by (simp add: rehash_cb_def)
    have m: "queues_map_r (arr ! i) rehash_cb t' = Some (Inl NullDeref)"
      by (rule queues_map_r_fault[where app = rehash_cb and y = t', OF sk False cb])
    show ?thesis using i by (subst hashtabs_rehash_loop.simps) (simp add: arr m)
  qed
qed

lemma hashtabs_rehash_last:
  assumes inv: "hashtabs_inv t" and ci: "t_cap_index t = 44" and ne: "dir_entries t \<noteq> []"
  shows "hashtabs_rehash t = Some (Inl NullDeref)"
proof -
  obtain cap arr where c: "primes_at (t_cap_index t) = Inr cap" "t_A t = Some arr"
      "length arr = unat cap" "\<forall>i < length arr. slot_ok t cap i (arr ! i)"
    using inv by (auto simp: hashtabs_inv_def)
  have cap: "cap = 770793589" using c(1) ci by (simp add: primes_at_lt primes_44)
  let ?t0 = "\<lparr>t_size = 0, t_load = 0, t_cap_index = 45, t_cmp = t_cmp t, t_hash = t_hash t,
               t_A = None\<rparr>"
  have "hashtabs_rehash_loop t (length arr) ?t0 0 = Some (Inl NullDeref)"
    by (rule hashtabs_rehash_loop_fault[OF c(2,4)]) (use ne c(2) in \<open>simp_all add: dir_entries_def\<close>)
  then show ?thesis using c(1,3) cap by (simp add: hashtabs_rehash_def hashtabs_new_sentinel)
qed

text \<open>
  C5 as stated (every directory) fails at the last ladder prime: a directory built for
  513862367 elements has capacity 770793589; after one insert, \<open>hashtabs_rehash\<close> builds
  the new directory at the \<open>SIZE_MAX\<close> sentinel, with a null chain array, and the first
  reinsertion dereferences it.
\<close>
theorem hashtabs_rehash_last_prime_faults:
  "dir_run int_cmp int_hash 513862367 [Insert 0, Rehash] = Some (Inl NullDeref)"
proof -
  have g: "get_cap_index 513862367 < 45" by (simp add: get_cap_index_last)
  from hashtabs_new_inv[OF g, of int_cmp int_hash] obtain t0 where
    n: "hashtabs_new int_cmp int_hash 513862367 = Inr t0" "hashtabs_inv t0" "dir_entries t0 = []"
       "t_cmp t0 = int_cmp" "t_cap_index t0 = get_cap_index 513862367"
    by (elim exE conjE) (rule that; assumption)
  have tot: "total_cmp (t_cmp t0)" using total_cmp_int n(4) by simp
  note s = ins_dir_spec[OF n(2) tot, of 0]
  have i: "hashtabs_insert t0 0 = Some (Inr (ins_dir t0 0))" using s by simp
  have inv1: "hashtabs_inv (ins_dir t0 0)" using s by simp
  have ci1: "t_cap_index (ins_dir t0 0) = 44" using s n(5) by (simp add: get_cap_index_last)
  have "0 \<in> set (dir_entries (ins_dir t0 0))" using s n(3) by simp
  then have ne: "dir_entries (ins_dir t0 0) \<noteq> []" by auto
  have r: "hashtabs_rehash (ins_dir t0 0) = Some (Inl NullDeref)"
    using hashtabs_rehash_last[OF inv1 ci1 ne] .
  show ?thesis using n(1) i r by (simp add: dir_run_def)
qed

lemma chain_entries_None: "chain_entries None = []"
  by (simp add: chain_entries_def)

lemma dir_one_entries: "dir_entries dir_one = [0]"
  using q_zero_entries
  by (simp add: dir_entries_def dir_one_def chain_entries_None eval_nat_numeral)

lemma dir_one_find: "hashtabs_find dir_one 0 = Some (Inr (Some 0))"
  by (simp add: dir_one_def eval_defs)

theorem hashtabs_rehash_migrates_witness:
  "hashtabs_inv dir_one \<and> total_cmp (t_cmp dir_one)
   \<and> hash_respects (t_cmp dir_one) (t_hash dir_one) \<and> t_cap_index dir_one < 44
   \<and> (\<exists>t' es'. hashtabs_rehash dir_one = Some (Inr (dir_one, t')) \<and> hashtabs_inv t'
         \<and> hashtabs_traverse dir_one = Some (Inr [0])
         \<and> hashtabs_traverse t' = Some (Inr es') \<and> set es' = {0}
         \<and> hashtabs_capacity dir_one = Inr 11 \<and> hashtabs_capacity t' = Inr 17
         \<and> hashtabs_find dir_one 0 = Some (Inr (Some 0))
         \<and> hashtabs_find t' 0 = Some (Inr (Some 0)))"
proof -
  have hr: "hash_respects (t_cmp dir_one) (t_hash dir_one)"
    using hash_respects_int by (simp add: dir_one_def)
  have ci: "t_cap_index dir_one < 44" by (simp add: dir_one_def)
  have tr: "hashtabs_traverse dir_one = Some (Inr [0])"
    using hashtabs_traverse_spec[OF dir_one_inv] by (simp add: dir_one_entries)
  have c: "hashtabs_capacity dir_one = Inr 11"
    by (simp add: hashtabs_capacity_def dir_one_def primes_at_def primes_def)
  from hashtabs_rehash_migrates[OF dir_one_inv dir_one_total hr ci] obtain t' es es' cap cap' where
    r: "hashtabs_rehash dir_one = Some (Inr (dir_one, t'))" "hashtabs_inv t'"
       "hashtabs_traverse dir_one = Some (Inr es)" "hashtabs_traverse t' = Some (Inr es')"
       "set es' = set es"
       "hashtabs_capacity dir_one = Inr cap" "hashtabs_capacity t' = Inr cap'"
       "cap' \<in> set primes" "cap < cap'" "\<forall>p \<in> set primes. cap < p \<longrightarrow> cap' \<le> p"
       "\<forall>x y. hashtabs_find dir_one x = Some (Inr (Some y))
            \<longrightarrow> hashtabs_find t' x = Some (Inr (Some y))"
    by (elim exE conjE) (rule that; assumption)
  have "es = [0]" using r(3) tr by simp
  then have es: "set es' = {0}" using r(5) by simp
  have cap: "cap = 11" using r(6) c by simp
  have "(17 :: size_t) \<in> set primes" by (simp add: primes_def)
  then have le: "cap' \<le> 17" using r(10) cap by simp
  have sm: "\<not> (- 1 :: size_t) \<le> 17" by (simp add: word_le_nat_alt unat_size_max)
  have "cap' = 17" using r(8,9) le cap sm by (auto simp: primes_def)
  then have c': "hashtabs_capacity t' = Inr 17" using r(7) by simp
  have f: "hashtabs_find t' 0 = Some (Inr (Some 0))" using r(11) dir_one_find by blast
  show ?thesis using dir_one_inv dir_one_total hr ci r(1,2,4) tr es c c' dir_one_find f by blast
qed


section \<open>Callers outside the comparator and hash contracts\<close>

lemma enqueu_body_stuck:
  assumes a: "q_nodes q a = Some tn" and nx: "node_next tn = Some nx"
    and n: "q_nodes q nx = Some nn"
    and c: "q_cmp q v (node_x nn) \<noteq> - 1" "q_cmp q v (node_x nn) \<noteq> 0"
       "q_cmp q v (node_x nn) \<noteq> 1"
  shows "enqueu_body q v (Some a) = None"
proof (rule ccontr)
  assume "enqueu_body q v (Some a) \<noteq> None"
  then obtain y where y: "enqueu_body q v (Some a) = Some y" by auto
  have r: "\<not> (q' = q \<and> v' = v \<and> t' = Some a)"
    if p: "enqueu_body q' v' t' = Some y'" for q' v' t' y'
  proof (rule enqueu_body.raw_induct
      [where P = "\<lambda>q' v' t' y'. \<not> (q' = q \<and> v' = v \<and> t' = Some a)", OF _ p], goal_cases)
    case (1 f q1 v1 t1 y1)
    show ?case
    proof
      assume e: "q1 = q \<and> v1 = v \<and> t1 = Some a"
      then have "f q v (Some a) = Some y1" using 1(2) a nx n c by (simp add: node_at_def)
      then show False using 1(1) by blast
    qed
  qed
  show False using r[OF y] by blast
qed

lemma queues_enqueu_stuck:
  assumes hp: "q_head q = Some a" and tp: "q_tail q = Some z"
    and z: "q_nodes q z = Some zn"
    and cz: "q_cmp q v (node_x zn) \<noteq> 0" "q_cmp q v (node_x zn) \<noteq> 1"
    and a: "q_nodes q a = Some tn"
    and ca: "q_cmp q v (node_x tn) \<noteq> - 1" "q_cmp q v (node_x tn) \<noteq> 0"
    and nx: "node_next tn = Some nx" and n: "q_nodes q nx = Some nn"
    and c: "q_cmp q v (node_x nn) \<noteq> - 1" "q_cmp q v (node_x nn) \<noteq> 0"
       "q_cmp q v (node_x nn) \<noteq> 1"
  shows "queues_enqueu q v = None"
  using hp tp z cz a ca enqueu_body_stuck[OF a nx n c]
  by (simp add: queues_enqueu_def node_at_def)

lemma run_ops_append:
  "run_ops q (cs @ ds) =
     (case run_ops q cs of None \<Rightarrow> None | Some (Inl e) \<Rightarrow> Some (Inl e)
      | Some (Inr q') \<Rightarrow> run_ops q' ds)"
  by (induction cs arbitrary: q) (auto split: option.splits sum.splits)

lemma run_dir_ops_append:
  "run_dir_ops t (cs @ ds) =
     (case run_dir_ops t cs of None \<Rightarrow> None | Some (Inl e) \<Rightarrow> Some (Inl e)
      | Some (Inr t') \<Rightarrow> run_dir_ops t' ds)"
  by (induction cs arbitrary: t) (auto split: option.splits sum.splits)

lemma chain15:
  "\<exists>q. run_ops (queues_new diff_cmp) [Enqueu 1, Enqueu 2, Enqueu 3, Enqueu 4, Enqueu 5]
          = Some (Inr q)
     \<and> q_cmp q = diff_cmp \<and> q_head q = Some 0 \<and> q_tail q = Some 4
     \<and> q_nodes q 0 = Some \<lparr>node_x = 1, node_prev = None, node_next = Some 1\<rparr>
     \<and> q_nodes q 1 = Some \<lparr>node_x = 2, node_prev = Some 0, node_next = Some 2\<rparr>
     \<and> q_nodes q 4 = Some \<lparr>node_x = 5, node_prev = Some 3, node_next = None\<rparr>
     \<and> queues_traverse q = Some (Inr [1, 2, 3, 4, 5])"
  by (simp add: queues_new_def queues_enqueu_def node_at_def store_next_def diff_cmp_def
      queues_traverse_def queues_map_r_def map_r_loop.simps collect_def)

text \<open>
  C3 as stated (every chain, every value that compares equal to a member) fails for a
  comparator that orders the values but returns their difference.  The chain holds
  \<open>1, 2, 3, 4, 5\<close>; enqueueing \<open>4\<close> again compares it below the tail, above the head,
  and then with \<open>2\<close>: the result \<open>2\<close> matches no case of the \<open>switch\<close>, the loop repeats
  with the same node, and \<open>queues_enqueu\<close> does not return.
\<close>
theorem enqueu_duplicate_never_returns:
  "observe queues_traverse
      (run_ops (queues_new diff_cmp) [Enqueu 1, Enqueu 2, Enqueu 3, Enqueu 4, Enqueu 5])
     = Some (Inr (Some (Inr [1, 2, 3, 4, 5])))
   \<and> run_ops (queues_new diff_cmp)
        [Enqueu 1, Enqueu 2, Enqueu 3, Enqueu 4, Enqueu 5, Enqueu 4] = None"
proof -
  from chain15 obtain q where
    q: "run_ops (queues_new diff_cmp) [Enqueu 1, Enqueu 2, Enqueu 3, Enqueu 4, Enqueu 5]
          = Some (Inr q)"
       "q_cmp q = diff_cmp" "q_head q = Some 0" "q_tail q = Some 4"
       "q_nodes q 0 = Some \<lparr>node_x = 1, node_prev = None, node_next = Some 1\<rparr>"
       "q_nodes q 1 = Some \<lparr>node_x = 2, node_prev = Some 0, node_next = Some 2\<rparr>"
       "q_nodes q 4 = Some \<lparr>node_x = 5, node_prev = Some 3, node_next = None\<rparr>"
       "queues_traverse q = Some (Inr [1, 2, 3, 4, 5])"
    by (elim exE conjE) (rule that; assumption)
  have "queues_enqueu q 4 = None"
    by (rule queues_enqueu_stuck[OF q(3,4) q(7) _ _ q(5) _ _ _ q(6)])
       (simp_all add: q(2) diff_cmp_def)
  then have "run_ops q [Enqueu 4] = None" by simp
  then have "run_ops (queues_new diff_cmp)
      ([Enqueu 1, Enqueu 2, Enqueu 3, Enqueu 4, Enqueu 5] @ [Enqueu 4]) = None"
    unfolding run_ops_append q(1) by simp
  then show ?thesis using q(1,8) by (simp add: observe_def)
qed

lemma chain_entries_Some:
  "chain_entries (Some q) = (case queues_traverse q of Some (Inr xs) \<Rightarrow> xs | _ \<Rightarrow> [])"
  by (simp add: chain_entries_def)

lemma entries_slot0:
  "concat (map chain_entries ((replicate 11 None)[0 := a])) = chain_entries a"
  by (simp add: eval_nat_numeral chain_entries_None)

lemma entries_slot01:
  "concat (map chain_entries ((replicate 11 None)[0 := a, Suc 0 := b]))
     = chain_entries a @ chain_entries b"
  by (simp add: eval_nat_numeral chain_entries_None)

lemmas entries_eval = dir_entries_def entries_slot0 entries_slot01 chain_entries_Some
  queues_traverse_def queues_map_r_def map_r_loop.simps collect_def

lemma dir5:
  "\<exists>t arr q. dir_run kcmp int_hash 5 [Insert 0, Insert 11, Insert 22, Insert 33, Insert 44]
          = Some (Inr t)
     \<and> t_size t = 5 \<and> t_cap_index t = 0 \<and> t_hash t = int_hash
     \<and> t_A t = Some arr \<and> 0 < length arr \<and> arr ! 0 = Some q
     \<and> q_cmp q = kcmp \<and> q_head q = Some 0 \<and> q_tail q = Some 4
     \<and> q_nodes q 0 = Some \<lparr>node_x = 0, node_prev = None, node_next = Some 1\<rparr>
     \<and> q_nodes q 1 = Some \<lparr>node_x = 11, node_prev = Some 0, node_next = Some 2\<rparr>
     \<and> q_nodes q 4 = Some \<lparr>node_x = 44, node_prev = Some 3, node_next = None\<rparr>"
  by (simp add: dir_run_def hashtabs_new_5 eval_defs kcmp_def)

lemma dir5_entries:
  "observe dir_entries
      (dir_run kcmp int_hash 5 [Insert 0, Insert 11, Insert 22, Insert 33, Insert 44])
     = Some (Inr [0, 11, 22, 33, 44])"
  by (simp add: dir_run_def observe_def hashtabs_new_5 eval_defs kcmp_def entries_eval)

text \<open>
  C2 as stated (every insert call) fails for a comparator that orders the keys but
  returns their difference.  With \<open>kcmp\<close> and the identity hash the keys \<open>0\<close>, \<open>11\<close>,
  \<open>22\<close>, \<open>33\<close>, \<open>44\<close> form the chain of slot \<open>0\<close> and the size counter is \<open>5\<close>.
  Inserting the member \<open>33\<close> again compares it with \<open>11\<close> in the body scan of
  \<open>queues_enqueu\<close>: the result \<open>2\<close> matches no case, the scan repeats forever, and
  \<open>hashtabs_insert\<close> never reaches its increment of the size counter.
\<close>
theorem hashtabs_insert_duplicate_never_returns:
  "observe hashtabs_size
      (dir_run kcmp int_hash 5 [Insert 0, Insert 11, Insert 22, Insert 33, Insert 44])
     = Some (Inr 5)
   \<and> observe dir_entries
      (dir_run kcmp int_hash 5 [Insert 0, Insert 11, Insert 22, Insert 33, Insert 44])
     = Some (Inr [0, 11, 22, 33, 44])
   \<and> dir_run kcmp int_hash 5 [Insert 0, Insert 11, Insert 22, Insert 33, Insert 44, Insert 33]
     = None"
proof -
  let ?cs = "[Insert 0, Insert 11, Insert 22, Insert 33, Insert (44 :: int)]"
  let ?t0 = "\<lparr>t_size = 0, t_load = 0, t_cap_index = 0, t_cmp = kcmp, t_hash = int_hash,
      t_A = Some (replicate 11 None)\<rparr>"
  from dir5 obtain t arr q where
    r: "dir_run kcmp int_hash 5 ?cs = Some (Inr t)"
       "t_size t = 5" "t_cap_index t = 0" "t_hash t = int_hash"
       "t_A t = Some arr" "0 < length arr" "arr ! 0 = Some q"
       "q_cmp q = kcmp" "q_head q = Some 0" "q_tail q = Some 4"
       "q_nodes q 0 = Some \<lparr>node_x = 0, node_prev = None, node_next = Some 1\<rparr>"
       "q_nodes q 1 = Some \<lparr>node_x = 11, node_prev = Some 0, node_next = Some 2\<rparr>"
       "q_nodes q 4 = Some \<lparr>node_x = 44, node_prev = Some 3, node_next = None\<rparr>"
    by (elim exE conjE) (rule that; assumption)
  have e: "queues_enqueu q 33 = None"
    by (rule queues_enqueu_stuck[OF r(9,10) r(13) _ _ r(11) _ _ _ r(12)])
       (simp_all add: r(8) kcmp_def)
  have hi: "hashtabs_insert t 33 = None"
    using r(3,4,5,6,7) e by (simp add: hashtabs_insert_def primes_at_def primes_def int_hash_def)
  have run: "run_dir_ops ?t0 ?cs = Some (Inr t)"
    using r(1) by (simp only: dir_run_def hashtabs_new_5 sum.case)
  have "run_dir_ops ?t0 (?cs @ [Insert 33]) = None"
    unfolding run_dir_ops_append run by (simp add: hi)
  then have n: "dir_run kcmp int_hash 5 (?cs @ [Insert 33]) = None"
    by (simp only: dir_run_def hashtabs_new_5 sum.case)
  have s: "observe hashtabs_size (dir_run kcmp int_hash 5 ?cs) = Some (Inr 5)"
    using r(1,2) by (simp add: observe_def hashtabs_size_def)
  show ?thesis using s dir5_entries n by simp
qed

lemma total_cmp_cmp17: "total_cmp cmp17"
proof -
  have "cmp17 = (\<lambda>a b. int_cmp (a mod 17) (b mod 17))" by (simp add: fun_eq_iff cmp17_def)
  then show ?thesis using total_cmp_key[of "\<lambda>a. a mod 17"] by simp
qed

text \<open>
  C7 as stated (every directory, every key present) fails for a hash function that
  separates entries which compare equal.  \<open>cmp17\<close> is a total order with results \<open>-1\<close>,
  \<open>0\<close>, \<open>1\<close> under which \<open>0\<close> and \<open>34\<close> are equal; the identity hash puts them into the
  slots \<open>0\<close> and \<open>1\<close> of a directory of capacity 11.  \<open>hashtabs_remove\<close> of the key \<open>0\<close>
  returns the entry \<open>0\<close>, and the following \<open>hashtabs_find\<close> of the key \<open>0\<close> returns the
  entry \<open>34\<close>.
\<close>
theorem hashtabs_find_after_remove_returns_entry:
  "observe dir_entries (dir_run cmp17 int_hash 5 [Insert 0, Insert 34]) = Some (Inr [0, 34])
   \<and> observe (removed_entry 0) (dir_run cmp17 int_hash 5 [Insert 0, Insert 34])
     = Some (Inr (Some (Inr (Some 0))))
   \<and> observe (find_key 0) (dir_run cmp17 int_hash 5 [Insert 0, Insert 34, RemoveKey 0])
     = Some (Inr (Some (Inr (Some 34))))"
  by (simp add: dir_eval cmp17_def removed_entry_def find_key_def entries_eval)

lemma entries17_slot0:
  "concat (map chain_entries ((replicate 17 None)[0 := a])) = chain_entries a"
  by (simp add: eval_nat_numeral chain_entries_None)

text \<open>
  Both conditions on the caller in the migration theorem are needed.  With the difference
  comparator, or with a hash function that separates entries comparing equal, the
  entries \<open>0\<close> and \<open>34\<close> lie in two chains at capacity 11 and meet in one chain at
  capacity 17, where the chain does not take the second of them: the rehashed directory
  holds \<open>0\<close> only.
\<close>
lemma hashtabs_rehash_drops_entry:
  "observe dir_entries (dir_run diff_cmp int_hash 5 [Insert 0, Insert 34]) = Some (Inr [0, 34])
   \<and> observe dir_entries (dir_run diff_cmp int_hash 5 [Insert 0, Insert 34, Rehash])
       = Some (Inr [0])
   \<and> observe dir_entries (dir_run cmp17 int_hash 5 [Insert 0, Insert 34, Rehash])
       = Some (Inr [0])"
  by (simp add: dir_eval diff_cmp_def cmp17_def entries_eval entries17_slot0 hashtabs_new_11)

end
